theory Spec2Isabelle
  imports Main
begin

section \<open>JavaScript values and objects\<close>

text \<open>
  The client receives \<^verbatim>\<open>result_data\<close> as parsed JSON, so the values the components see
  are JavaScript values. Numbers are kept as integers: the code only tests them for
  truthiness, and the only falsy numbers a JSON document can carry are zeros. An object
  is the list of its own enumerable properties in enumeration order.
\<close>

datatype jsval =
    JUndefined
  | JNull
  | JBool bool
  | JNum int
  | JStr string
  | JArr "jsval list"
  | JObj "(string \<times> jsval) list"

type_synonym 'v props = "(string \<times> 'v) list"

text \<open>Truthiness, as \<^verbatim>\<open>!x\<close>, \<^verbatim>\<open>x || y\<close> and \<^verbatim>\<open>x && y\<close> test it.\<close>

fun truthy :: "jsval \<Rightarrow> bool" where
  "truthy JUndefined = False"
| "truthy JNull = False"
| "truthy (JBool b) = b"
| "truthy (JNum n) = (n \<noteq> 0)"
| "truthy (JStr s) = (s \<noteq> [])"
| "truthy (JArr xs) = True"
| "truthy (JObj ps) = True"

text \<open>\<^verbatim>\<open>a || b\<close>\<close>

definition js_or :: "jsval \<Rightarrow> jsval \<Rightarrow> jsval" where
  "js_or a b = (if truthy a then a else b)"

text \<open>\<^verbatim>\<open>typeof x\<close>\<close>

fun typeof :: "jsval \<Rightarrow> string" where
  "typeof JUndefined = ''undefined''"
| "typeof JNull = ''object''"
| "typeof (JBool b) = ''boolean''"
| "typeof (JNum n) = ''number''"
| "typeof (JStr s) = ''string''"
| "typeof (JArr xs) = ''object''"
| "typeof (JObj ps) = ''object''"

text \<open>\<^verbatim>\<open>values[i]\<close> on an array: reading past the end gives \<^verbatim>\<open>undefined\<close>.\<close>

definition js_index :: "jsval list \<Rightarrow> nat \<Rightarrow> jsval" where
  "js_index xs i = (if i < length xs then xs ! i else JUndefined)"

text \<open>The name of an array index as a property key: its decimal digits.\<close>

definition digit_char :: "nat \<Rightarrow> char" where
  "digit_char d = char_of (of_char CHR ''0'' + d)"

function index_key :: "nat \<Rightarrow> string" where
  "index_key n =
     (if n div 10 = 0 then [digit_char n] else index_key (n div 10) @ [digit_char (n mod 10)])"
  by pat_completeness auto
termination
  by (relation "measure id") auto

declare index_key.simps [simp del]

text \<open>
  The own enumerable string-keyed properties of a value, in enumeration order, as
  \<^verbatim>\<open>Object.keys\<close>, \<^verbatim>\<open>Object.values\<close>, \<^verbatim>\<open>Object.entries\<close> and a rest pattern see
  them: an object's properties, an array's elements under their indices, a string's
  characters under theirs, nothing for a number or a boolean.
\<close>

fun own_entries :: "jsval \<Rightarrow> jsval props" where
  "own_entries (JObj ps) = ps"
| "own_entries (JArr xs) = zip (map index_key [0..<length xs]) xs"
| "own_entries (JStr s) = zip (map index_key [0..<length s]) (map (\<lambda>c. JStr [c]) s)"
| "own_entries v = []"

text \<open>
  JavaScript enumerates the own properties of an object with the array indices first,
  in ascending numeric order, and the other string keys after them in the order of their
  creation. An array index is a key that is the canonical decimal spelling (no leading
  zero) of an integer from 0 to \<open>2\<^sup>3\<^sup>2 - 2\<close>.
\<close>

definition is_digit :: "char \<Rightarrow> bool" where
  "is_digit c = (c \<in> set ''0123456789'')"

definition digits_value :: "string \<Rightarrow> nat" where
  "digits_value key = foldl (\<lambda>a c. 10 * a + (of_char c - 48)) 0 key"

definition array_index :: "string \<Rightarrow> nat option" where
  "array_index key =
     (if key \<noteq> [] \<and> list_all is_digit key \<and> (length key = 1 \<or> hd key \<noteq> CHR ''0'') \<and>
         digits_value key \<le> 4294967294
      then Some (digits_value key) else None)"

text \<open>
  A new property under the array index \<open>n\<close> takes its place among the array indices:
  before the first property that is no array index or a greater one.
\<close>

fun insert_index :: "nat \<Rightarrow> string \<Rightarrow> 'v \<Rightarrow> 'v props \<Rightarrow> 'v props" where
  "insert_index n key v [] = [(key, v)]"
| "insert_index n key v ((k, w) # obj) =
     (case array_index k of
        Some m \<Rightarrow> if m < n then (k, w) # insert_index n key v obj else (key, v) # (k, w) # obj
      | None \<Rightarrow> (key, v) # (k, w) # obj)"

text \<open>
  \<^verbatim>\<open>obj[key] = v\<close> on an object made by the literal \<^verbatim>\<open>{}\<close> and only ever written
  this way. An own property is overwritten in place and a new key is created, with one
  exception of the language: \<^verbatim>\<open>__proto__\<close> is an accessor inherited from
  \<^verbatim>\<open>Object.prototype\<close>, so assigning to it calls that setter (which changes the
  prototype when \<^verbatim>\<open>v\<close> is an object or null and does nothing otherwise) and creates
  no own property. Only own properties are modelled.
\<close>

definition obj_assign :: "'v props \<Rightarrow> string \<Rightarrow> 'v \<Rightarrow> 'v props" where
  "obj_assign obj key v =
     (if key \<in> set (map fst obj) then map (\<lambda>(k, w). if k = key then (k, v) else (k, w)) obj
      else if key = ''__proto__'' then obj
      else case array_index key of
             Some n \<Rightarrow> insert_index n key v obj
           | None \<Rightarrow> obj @ [(key, v)])"

section \<open>ResultsTable: the result normalizer\<close>

text \<open>
  \<^verbatim>\<open>Math.max(...ns)\<close> over array lengths: \<^verbatim>\<open>-Infinity\<close> when there is no argument.
\<close>

datatype extnat = NegInfinity | Finite nat

fun Math_max :: "nat list \<Rightarrow> extnat" where
  "Math_max [] = NegInfinity"
| "Math_max (n # ns) = (case Math_max ns of NegInfinity \<Rightarrow> Finite n | Finite m \<Rightarrow> Finite (max n m))"

text \<open>\<^verbatim>\<open>i < maxLength\<close>\<close>

fun less_ext :: "nat \<Rightarrow> extnat \<Rightarrow> bool" where
  "less_ext i NegInfinity = False"
| "less_ext i (Finite n) = (i < n)"

text \<open>\<^verbatim>\<open>const { _metadata, ...scrapedData } = data\<close>\<close>

definition scrapedData_of :: "jsval \<Rightarrow> jsval props" where
  "scrapedData_of data = filter (\<lambda>(k, v). k \<noteq> ''_metadata'') (own_entries data)"

text \<open>The value one field contributes to row \<open>i\<close>: the body of the \<^verbatim>\<open>forEach\<close>.\<close>

definition cell :: "nat \<Rightarrow> jsval \<Rightarrow> jsval" where
  "cell i vals =
     (case vals of
        JArr xs \<Rightarrow> js_or (js_index xs i) (JStr [])
      | _ \<Rightarrow> if i = 0 then vals else JStr [])"

definition make_row :: "jsval props \<Rightarrow> nat \<Rightarrow> jsval props" where
  "make_row scrapedData i =
     foldl (\<lambda>row (key, vals). obj_assign row key (cell i vals)) [] scrapedData"

text \<open>\<^verbatim>\<open>for (let i = 0; i < maxLength; i++) { ...; rows.push(row) }\<close>\<close>

function rows_loop :: "jsval props \<Rightarrow> extnat \<Rightarrow> nat \<Rightarrow> jsval props list \<Rightarrow> jsval props list" where
  "rows_loop scrapedData maxLength i rows =
     (if less_ext i maxLength
      then rows_loop scrapedData maxLength (i + 1) (rows @ [make_row scrapedData i])
      else rows)"
  by pat_completeness auto
termination
  by (relation "measure (\<lambda>(sd, m, i, rows). (case m of NegInfinity \<Rightarrow> 0 | Finite n \<Rightarrow> n - i))")
     (auto split: extnat.splits)

declare rows_loop.simps [simp del]

definition tableData :: "jsval \<Rightarrow> jsval props list" where
  "tableData data =
     (if \<not> truthy data \<or> typeof data \<noteq> ''object'' then []
      else
        let scrapedData = scrapedData_of data;
            maxLength = Math_max (map (\<lambda>vals. case vals of JArr xs \<Rightarrow> length xs | _ \<Rightarrow> 1)
                                      (map snd scrapedData))
        in rows_loop scrapedData maxLength 0 [])"

text \<open>
  What the component renders: one of the two messages, or the table. A column is
  given by its accessor (the key); the capitalised header text is not modelled.
\<close>

datatype view = Message string | Table "string list" "jsval props list"

definition columns_of :: "jsval props list \<Rightarrow> string list" where
  "columns_of rows = (if length rows = 0 then [] else map fst (hd rows))"

definition ResultsTable :: "jsval \<Rightarrow> view" where
  "ResultsTable data =
     (if \<not> truthy data \<or> length (own_entries data) = 0 then Message ''No data available''
      else if length (tableData data) = 0
        then Message ''No data found with the specified selectors''
      else Table (columns_of (tableData data)) (tableData data))"

text \<open>
  The width of the table in the specification's words (step 2 of its algorithm): the
  greatest, over the remaining fields, of the length of a sequence and 1 for a scalar;
  0 when no field remains. It is compared with the loop bound of the code below.
\<close>

definition spec_width :: "jsval props \<Rightarrow> nat" where
  "spec_width sd =
     (if sd = [] then 0
      else Max (set (map (\<lambda>vals. case vals of JArr xs \<Rightarrow> length xs | _ \<Rightarrow> 1) (map snd sd))))"

section \<open>ScrapingForm: validation of a submission\<close>

record selector_pair =
  field :: string
  selector :: string

record form_data =
  url :: string
  use_selenium :: bool
  selectors :: "selector_pair list"

text \<open>The object handed to \<^verbatim>\<open>onSubmit\<close>: \<^verbatim>\<open>{url, use_selenium, selectors}\<close>.\<close>

record scrape_request =
  req_url :: string
  req_use_selenium :: bool
  req_selectors :: "string props"

text \<open>
  The three early returns of \<^verbatim>\<open>handleSubmit\<close>, named as the specification names them:
  \<^verbatim>\<open>alert('Please enter a URL')\<close>, \<^verbatim>\<open>alert('Please add at least one selector')\<close> and
  \<^verbatim>\<open>alert('Please add valid selectors')\<close>.
\<close>

datatype validation_error = MissingUrl | NoSelectors | NoValidSelectors

fun alert_text :: "validation_error \<Rightarrow> string" where
  "alert_text MissingUrl = ''Please enter a URL''"
| "alert_text NoSelectors = ''Please add at least one selector''"
| "alert_text NoValidSelectors = ''Please add valid selectors''"

text \<open>
  \<^verbatim>\<open>formData.selectors.forEach(sel => { if (sel.field && sel.selector) selectorsObj[sel.field] = sel.selector })\<close>
\<close>

definition selectorsObj_of :: "selector_pair list \<Rightarrow> string props" where
  "selectorsObj_of sels =
     foldl (\<lambda>obj sel. if field sel \<noteq> [] \<and> selector sel \<noteq> []
                       then obj_assign obj (field sel) (selector sel) else obj) [] sels"

definition handleSubmit :: "form_data \<Rightarrow> validation_error + scrape_request" where
  "handleSubmit formData =
     (if url formData = [] then Inl MissingUrl
      else if length (selectors formData) = 0 then Inl NoSelectors
      else
        let selectorsObj = selectorsObj_of (selectors formData)
        in if length (map fst selectorsObj) = 0 then Inl NoValidSelectors
           else Inr \<lparr>req_url = url formData, req_use_selenium = use_selenium formData,
                     req_selectors = selectorsObj\<rparr>)"

section \<open>Dashboard: the job collection and the polling timers\<close>

record job =
  job_id :: nat
  job_url :: string
  status :: string
  result_data :: jsval
  error_message :: string
  created_at :: string

text \<open>How an awaited request ends: with the response data, or rejected (with the
  \<^verbatim>\<open>detail\<close> of the error response when there is one).\<close>

datatype 'a response = Resolved 'a | Rejected "string option"

datatype toast = ToastSuccess string | ToastError string

text \<open>
  The two closures \<^verbatim>\<open>pollJobStatus\<close> hands to the timers: the interval's callback,
  closed over \<^verbatim>\<open>jobId\<close>, and the timeout's \<^verbatim>\<open>() => clearInterval(pollInterval)\<close>,
  closed over the interval's handle.
\<close>

datatype callback = PollTick nat | ClearPoll nat

text \<open>
  A pending timer of the browser: \<open>period\<close> is the delay of a \<^verbatim>\<open>setInterval\<close> timer and
  \<open>None\<close> for a \<^verbatim>\<open>setTimeout\<close> one. Time is virtual, in milliseconds.
\<close>

record timer =
  handle :: nat
  due :: nat
  period :: "nat option"
  callback :: callback

text \<open>A status request a tick has sent: when, by which interval, for which job, and
  whether its answer has been handled.\<close>

record fetch =
  issued_at :: nat
  issued_by :: nat
  for_job :: nat
  settled :: bool

text \<open>
  The component's state (\<^verbatim>\<open>scrapeJobs\<close>, \<^verbatim>\<open>currentJob\<close>, \<^verbatim>\<open>loading\<close>), the toasts shown
  so far, and the part of the browser the code drives: the clock, the timers and the
  status requests.
\<close>

record dashboard =
  scrapeJobs :: "job list"
  currentJob :: "job option"
  loading :: bool
  toasts :: "toast list"
  clock :: nat
  nextHandle :: nat
  timers :: "timer list"
  fetches :: "fetch list"

definition initial_dashboard :: dashboard where
  "initial_dashboard =
     \<lparr>scrapeJobs = [], currentJob = None, loading = False, toasts = [], clock = 0,
      nextHandle = 1, timers = [], fetches = []\<rparr>"

definition setInterval :: "callback \<Rightarrow> nat \<Rightarrow> dashboard \<Rightarrow> nat \<times> dashboard" where
  "setInterval cb delay st =
     (nextHandle st,
      st\<lparr>timers := timers st @ [\<lparr>handle = nextHandle st, due = clock st + delay,
                                   period = Some delay, callback = cb\<rparr>],
         nextHandle := nextHandle st + 1\<rparr>)"

definition setTimeout :: "callback \<Rightarrow> nat \<Rightarrow> dashboard \<Rightarrow> nat \<times> dashboard" where
  "setTimeout cb delay st =
     (nextHandle st,
      st\<lparr>timers := timers st @ [\<lparr>handle = nextHandle st, due = clock st + delay,
                                   period = None, callback = cb\<rparr>],
         nextHandle := nextHandle st + 1\<rparr>)"

definition clearInterval :: "nat \<Rightarrow> dashboard \<Rightarrow> dashboard" where
  "clearInterval h st = st\<lparr>timers := filter (\<lambda>t. handle t \<noteq> h) (timers st)\<rparr>"

definition pollJobStatus :: "nat \<Rightarrow> dashboard \<Rightarrow> dashboard" where
  "pollJobStatus jobId st =
     (let (pollInterval, st1) = setInterval (PollTick jobId) 2000 st;
          (timeoutId, st2) = setTimeout (ClearPoll pollInterval) 300000 st1
      in st2)"

text \<open>The interval's callback up to its \<^verbatim>\<open>await\<close>: the status request goes out.\<close>

definition tick_issue :: "nat \<Rightarrow> nat \<Rightarrow> dashboard \<Rightarrow> dashboard" where
  "tick_issue pollInterval jobId st =
     st\<lparr>fetches := fetches st @ [\<lparr>issued_at = clock st, issued_by = pollInterval,
                                     for_job = jobId, settled = False\<rparr>]\<rparr>"

text \<open>The rest of the callback, run when the request has ended.\<close>

definition tick_resume :: "nat \<Rightarrow> nat \<Rightarrow> job response \<Rightarrow> dashboard \<Rightarrow> dashboard" where
  "tick_resume pollInterval jobId resp st =
     (case resp of
        Resolved job \<Rightarrow>
          let st1 = st\<lparr>scrapeJobs := map (\<lambda>j. if job_id j = jobId then job else j) (scrapeJobs st)\<rparr>
          in if status job = ''completed'' \<or> status job = ''failed''
             then
               let st2 = clearInterval pollInterval st1
               in if status job = ''completed''
                  then st2\<lparr>currentJob := Some job,
                           toasts := toasts st2 @ [ToastSuccess ''Scraping completed!'']\<rparr>
                  else st2\<lparr>toasts := toasts st2 @
                             [ToastError (''Scraping failed: '' @ error_message job)]\<rparr>
             else st1
      | Rejected detail \<Rightarrow>
          let st1 = clearInterval pollInterval st
          in st1\<lparr>toasts := toasts st1 @ [ToastError ''Error checking job status'']\<rparr>)"

definition handleScrape :: "scrape_request \<Rightarrow> job response \<Rightarrow> dashboard \<Rightarrow> dashboard" where
  "handleScrape scrapeData resp st =
     (let st0 = st\<lparr>loading := True\<rparr>;
          st1 =
            (case resp of
               Resolved job \<Rightarrow>
                 let st2 = pollJobStatus (job_id job)
                             (st0\<lparr>scrapeJobs := job # scrapeJobs st0, currentJob := Some job\<rparr>)
                 in st2\<lparr>toasts := toasts st2 @ [ToastSuccess ''Scraping job started!'']\<rparr>
             | Rejected detail \<Rightarrow>
                 st0\<lparr>toasts := toasts st0 @
                       [ToastError (case detail of
                                      Some d \<Rightarrow> if d \<noteq> [] then d else ''Failed to start scraping job''
                                    | None \<Rightarrow> ''Failed to start scraping job'')]\<rparr>)
      in st1\<lparr>loading := False\<rparr>)"

text \<open>
  \<^verbatim>\<open>deleteJob\<close> reads \<^verbatim>\<open>currentJob\<close> through its closure: what it tests after the
  \<^verbatim>\<open>await\<close> is the selection of the render in which the button was clicked
  (\<open>clicked\<close>), not the selection at the time of the answer.
\<close>

definition deleteJob :: "nat \<Rightarrow> job option \<Rightarrow> unit response \<Rightarrow> dashboard \<Rightarrow> dashboard" where
  "deleteJob jobId clicked resp st =
     (case resp of
        Resolved u \<Rightarrow>
          st\<lparr>scrapeJobs := filter (\<lambda>j. job_id j \<noteq> jobId) (scrapeJobs st),
             currentJob := (case clicked of
                              Some j \<Rightarrow> if job_id j = jobId then None else currentJob st
                            | None \<Rightarrow> currentJob st),
             toasts := toasts st @ [ToastSuccess ''Job deleted successfully'']\<rparr>
      | Rejected detail \<Rightarrow> st\<lparr>toasts := toasts st @ [ToastError ''Failed to delete job'']\<rparr>)"

definition viewJob :: "job \<Rightarrow> dashboard \<Rightarrow> dashboard" where
  "viewJob j st = st\<lparr>currentJob := Some j\<rparr>"

text \<open>
  The form's \<^verbatim>\<open>onSubmit\<close> is \<^verbatim>\<open>handleScrape\<close>: a submission either stops at an alert
  and leaves the dashboard alone, or sends the request, whose outcome \<open>remote\<close> gives.
\<close>

definition submit ::
  "form_data \<Rightarrow> (scrape_request \<Rightarrow> job response) \<Rightarrow> dashboard \<Rightarrow> validation_error option \<times> dashboard" where
  "submit formData remote st =
     (case handleSubmit formData of
        Inl e \<Rightarrow> (Some e, st)
      | Inr scrapeData \<Rightarrow> (None, handleScrape scrapeData (remote scrapeData) st))"

subsection \<open>The event loop\<close>

text \<open>
  The browser runs a timer's callback when the timer is due and no other pending timer
  is due earlier (timers due at the same time may run in either order); the clock then
  stands at the timer's due time. An interval timer is armed again one period later, a
  timeout timer is gone.
\<close>

definition fire :: "nat \<Rightarrow> dashboard \<Rightarrow> dashboard" where
  "fire h st =
     (case find (\<lambda>t. handle t = h) (timers st) of
        None \<Rightarrow> st
      | Some t \<Rightarrow>
          if list_ex (\<lambda>t'. due t' < due t) (timers st) then st
          else
            let st1 = st\<lparr>clock := max (clock st) (due t),
                        timers := (case period t of
                                     None \<Rightarrow> filter (\<lambda>t'. handle t' \<noteq> h) (timers st)
                                   | Some d \<Rightarrow> map (\<lambda>t'. if handle t' = h then t'\<lparr>due := due t' + d\<rparr> else t')
                                                  (timers st))\<rparr>
            in (case callback t of
                  PollTick jobId \<Rightarrow> tick_issue h jobId st1
                | ClearPoll pollInterval \<Rightarrow> clearInterval pollInterval st1))"

text \<open>The answer to the \<open>k\<close>-th status request arrives; each request is answered once.\<close>

definition settle :: "nat \<Rightarrow> job response \<Rightarrow> dashboard \<Rightarrow> dashboard" where
  "settle k resp st =
     (if k < length (fetches st) \<and> \<not> settled (fetches st ! k)
      then
        let f = fetches st ! k
        in tick_resume (issued_by f) (for_job f) resp
             (st\<lparr>fetches := (fetches st)[k := f\<lparr>settled := True\<rparr>]\<rparr>)
      else st)"

text \<open>
  Time passes until \<open>t\<close> with no timer running, which can be only while no pending
  timer is due before \<open>t\<close>.
\<close>

definition elapse :: "nat \<Rightarrow> dashboard \<Rightarrow> dashboard" where
  "elapse t st =
     (if clock st \<le> t \<and> \<not> list_ex (\<lambda>x. due x < t) (timers st) then st\<lparr>clock := t\<rparr> else st)"

text \<open>
  What can happen to a mounted dashboard: time passes, a timer runs, a status request
  is answered, a submission's request is answered, the request of a deletion is
  answered (the event carries the selection at the time of the click), the user picks a
  job to view.
\<close>

datatype event =
    Elapse nat
  | Fire nat
  | Settle nat "job response"
  | Scrape scrape_request "job response"
  | Delete nat "job option" "unit response"
  | View job

fun step :: "dashboard \<Rightarrow> event \<Rightarrow> dashboard" where
  "step st (Elapse t) = elapse t st"
| "step st (Fire h) = fire h st"
| "step st (Settle k resp) = settle k resp st"
| "step st (Scrape scrapeData resp) = handleScrape scrapeData resp st"
| "step st (Delete jobId clicked resp) = deleteJob jobId clicked resp st"
| "step st (View j) = viewJob j st"

definition run :: "dashboard \<Rightarrow> event list \<Rightarrow> dashboard" where
  "run st evs = foldl step st evs"

text \<open>The intervals that are polling a job, and whether a timer is pending.\<close>

definition polling :: "dashboard \<Rightarrow> nat \<Rightarrow> nat list" where
  "polling st jobId = map handle (filter (\<lambda>t. callback t = PollTick jobId) (timers st))"

definition active :: "dashboard \<Rightarrow> nat \<Rightarrow> bool" where
  "active st h = (h \<in> set (map handle (timers st)))"

text \<open>The times at which an interval has run its callback: one status request each.\<close>

definition ticks :: "dashboard \<Rightarrow> nat \<Rightarrow> nat list" where
  "ticks st h = map issued_at (filter (\<lambda>f. issued_by f = h) (fetches st))"

text \<open>
  What holds of the timers in every state the dashboard reaches: handles are below the
  next one to be given out, no pending timer is due in the past, and the interval a
  timeout is to clear, like the interval a status request came from, has been given
  out already.
\<close>

definition timers_ok :: "dashboard \<Rightarrow> bool" where
  "timers_ok st \<longleftrightarrow>
     (\<forall>t \<in> set (timers st).
        handle t < nextHandle st \<and> clock st \<le> due t \<and>
        (case callback t of ClearPoll p \<Rightarrow> p < nextHandle st | PollTick j \<Rightarrow> True)) \<and>
     (\<forall>f \<in> set (fetches st). issued_by f < nextHandle st)"

text \<open>
  The link between the interval \<open>h\<close> of one registration and its timeout, which got the
  next handle and is due at \<open>D\<close>: while the interval is pending so is the timeout,
  nothing else clears the timeout, and the interval's requests went out by \<open>D\<close>.
\<close>

definition ceiling_guard :: "nat \<Rightarrow> nat \<Rightarrow> dashboard \<Rightarrow> bool" where
  "ceiling_guard h D st \<longleftrightarrow>
     h + 2 \<le> nextHandle st \<and>
     (\<forall>t \<in> set (timers st).
        (handle t = h + 1 \<longrightarrow> due t = D \<and> period t = None \<and> callback t = ClearPoll h) \<and>
        callback t \<noteq> ClearPoll (h + 1)) \<and>
     (active st h \<longrightarrow> active st (h + 1)) \<and>
     (\<forall>f \<in> set (fetches st). issued_by f \<noteq> h + 1 \<and> (issued_by f = h \<longrightarrow> issued_at f \<le> D))"

text \<open>
  Two more facts about the timers of every state the dashboard reaches: no two pending
  timers share a handle, and no interval has the period 0.
\<close>

definition timers_live :: "dashboard \<Rightarrow> bool" where
  "timers_live st \<longleftrightarrow>
     distinct (map handle (timers st)) \<and> (\<forall>t \<in> set (timers st). period t \<noteq> Some 0)"

text \<open>How often a pending timer can still run up to the time \<open>D\<close>.\<close>

definition firings_left :: "nat \<Rightarrow> timer \<Rightarrow> nat" where
  "firings_left D t =
     (if due t \<le> D then (case period t of None \<Rightarrow> 1 | Some d \<Rightarrow> (D - due t) div d + 1) else 0)"

text \<open>
  The run in which interval \<open>h\<close> fires \<open>n\<close> times and each of its status requests (the
  first of them being request \<open>k\<close>) is answered with the job \<open>j\<close> before the next one.
\<close>

definition answered_rounds :: "nat \<Rightarrow> nat \<Rightarrow> job \<Rightarrow> nat \<Rightarrow> event list" where
  "answered_rounds h k j n = concat (map (\<lambda>i. [Fire h, Settle (k + i) (Resolved j)]) [0..<n])"

text \<open>The job ids that the submissions of a run have been answered with.\<close>

fun created_id :: "event \<Rightarrow> nat list" where
  "created_id (Scrape scrapeData (Resolved j)) = [job_id j]"
| "created_id ev = []"

definition created_ids :: "event list \<Rightarrow> nat list" where
  "created_ids evs = concat (map created_id evs)"

text \<open>A job as the service first returns it, for the examples.\<close>

definition pending_job :: job where
  "pending_job =
     \<lparr>job_id = 7, job_url = ''https://example.com'', status = ''pending'',
      result_data = JNull, error_message = [], created_at = []\<rparr>"

text \<open>The dashboard once that job is in the collection and selected.\<close>

definition tracked_pending :: dashboard where
  "tracked_pending = initial_dashboard\<lparr>scrapeJobs := [pending_job], currentJob := Some pending_job\<rparr>"

section \<open>ExportButtons\<close>

text \<open>\<^verbatim>\<open>s.toUpperCase()\<close>, on the ASCII letters.\<close>

definition toUpperCase :: "string \<Rightarrow> string" where
  "toUpperCase s =
     map (\<lambda>c. if 97 \<le> (of_char c :: nat) \<and> (of_char c :: nat) \<le> 122
               then char_of ((of_char c :: nat) - 32) else c) s"

text \<open>The formats of \<^verbatim>\<open>exportOptions\<close>: one button each.\<close>

definition exportOptions :: "string list" where
  "exportOptions = [''csv'', ''json'', ''pdf'', ''excel'']"

text \<open>The \<^verbatim>\<open>switch\<close> of \<^verbatim>\<open>handleExport\<close>: the file name, or \<open>None\<close> where it throws.\<close>

definition export_filename :: "string \<Rightarrow> string option" where
  "export_filename fmt =
     (if fmt = ''csv'' then Some ''scraped_data.csv''
      else if fmt = ''json'' then Some ''scraped_data.json''
      else if fmt = ''pdf'' then Some ''scraped_data.pdf''
      else if fmt = ''excel'' then Some ''scraped_data.xlsx''
      else None)"

text \<open>An export request sent to the service, and a download the browser was told to start.\<close>

record export_request =
  exp_job :: nat
  exp_format :: string
  exp_filename :: string
  exp_settled :: bool

record download =
  dl_filename :: string
  dl_payload :: string

text \<open>
  One mounted \<^verbatim>\<open>ExportButtons\<close>: its \<^verbatim>\<open>jobId\<close> prop (\<open>prop_jobId\<close>), its state
  \<^verbatim>\<open>exporting\<close> (\<open>None\<close> for \<^verbatim>\<open>null\<close>), and what it has done so far: the export
  requests it has sent, the downloads it has started and the toasts it has shown.
\<close>

record export_buttons =
  prop_jobId :: nat
  exporting :: "string option"
  requests :: "export_request list"
  downloads :: "download list"
  notices :: "toast list"

definition mount_ExportButtons :: "nat \<Rightarrow> export_buttons" where
  "mount_ExportButtons j = \<lparr>prop_jobId = j, exporting = None, requests = [], downloads = [], notices = []\<rparr>"

text \<open>\<^verbatim>\<open>handleExport\<close> up to its \<^verbatim>\<open>await\<close>; an unknown format throws at once, which the
  \<^verbatim>\<open>catch\<close> and the \<^verbatim>\<open>finally\<close> handle.\<close>

definition handleExport :: "string \<Rightarrow> export_buttons \<Rightarrow> export_buttons" where
  "handleExport fmt st =
     (let st1 = st\<lparr>exporting := Some fmt\<rparr>
      in case export_filename fmt of
           Some filename \<Rightarrow>
             st1\<lparr>requests := requests st1 @
                    [\<lparr>exp_job = prop_jobId st1, exp_format = fmt, exp_filename = filename,
                      exp_settled = False\<rparr>]\<rparr>
         | None \<Rightarrow>
             st1\<lparr>notices := notices st1 @ [ToastError (''Failed to export as '' @ toUpperCase fmt)],
                 exporting := None\<rparr>)"

text \<open>The rest of \<^verbatim>\<open>handleExport\<close>, run when the \<open>k\<close>-th export request has ended.\<close>

definition export_resume :: "nat \<Rightarrow> string response \<Rightarrow> export_buttons \<Rightarrow> export_buttons" where
  "export_resume k resp st =
     (if k < length (requests st) \<and> \<not> exp_settled (requests st ! k)
      then
        let r = requests st ! k;
            st1 = st\<lparr>requests := (requests st)[k := r\<lparr>exp_settled := True\<rparr>]\<rparr>;
            st2 =
              (case resp of
                 Resolved payload \<Rightarrow>
                   st1\<lparr>downloads := downloads st1 @
                          [\<lparr>dl_filename = exp_filename r, dl_payload = payload\<rparr>],
                       notices := notices st1 @
                          [ToastSuccess (''Data exported as '' @ toUpperCase (exp_format r))]\<rparr>
               | Rejected detail \<Rightarrow>
                   st1\<lparr>notices := notices st1 @
                          [ToastError (''Failed to export as '' @ toUpperCase (exp_format r))]\<rparr>)
        in st2\<lparr>exporting := None\<rparr>
      else st)"

text \<open>
  A click on the button of a format: the button carries \<^verbatim>\<open>disabled={exporting === format}\<close>,
  and a disabled button (or one that is not rendered) runs no handler.
\<close>

definition click :: "string \<Rightarrow> export_buttons \<Rightarrow> export_buttons" where
  "click fmt st =
     (if fmt \<in> set exportOptions \<and> exporting st \<noteq> Some fmt then handleExport fmt st else st)"

datatype export_event = Click string | Answer nat "string response"

fun export_step :: "export_buttons \<Rightarrow> export_event \<Rightarrow> export_buttons" where
  "export_step st (Click fmt) = click fmt st"
| "export_step st (Answer k resp) = export_resume k resp st"

definition export_run :: "export_buttons \<Rightarrow> export_event list \<Rightarrow> export_buttons" where
  "export_run st evs = foldl export_step st evs"

text \<open>The export requests of a format that are still waiting for their answer.\<close>

definition outstanding :: "export_buttons \<Rightarrow> string \<Rightarrow> export_request list" where
  "outstanding st fmt = filter (\<lambda>r. exp_format r = fmt \<and> \<not> exp_settled r) (requests st)"

section \<open>Properties of the normalizer\<close>

lemma rows_loop_eq:
  "rows_loop sd (Finite n) i rows = rows @ map (make_row sd) [i..<n]"
proof (induction sd "Finite n" i rows rule: rows_loop.induct)
  case (1 sd i rows)
  show ?case
  proof (cases "i < n")
    case True
    then have "rows_loop sd (Finite n) i rows = rows_loop sd (Finite n) (i + 1) (rows @ [make_row sd i])"
      by (subst rows_loop.simps) simp
    also have "\<dots> = (rows @ [make_row sd i]) @ map (make_row sd) [i + 1..<n]"
      using "1" True by simp
    also have "\<dots> = rows @ map (make_row sd) [i..<n]"
      using True by (simp add: upt_conv_Cons)
    finally show ?thesis .
  next
    case False
    then show ?thesis by (subst rows_loop.simps) simp
  qed
qed

lemma rows_loop_done: "\<not> less_ext i m \<Longrightarrow> rows_loop sd m i rows = rows"
  by (subst rows_loop.simps) simp

lemma set_insert_index: "set (insert_index n k v obj) = insert (k, v) (set obj)"
  by (induction obj) (auto split: option.splits if_splits)

lemma map_of_insert_index:
  "k \<notin> fst ` set obj \<Longrightarrow>
   map_of (insert_index n k v obj) k' = (if k' = k then Some v else map_of obj k')"
  by (induction obj) (auto split: option.splits)

lemma distinct_insert_index:
  "k \<notin> fst ` set obj \<Longrightarrow> distinct (map fst obj) \<Longrightarrow> distinct (map fst (insert_index n k v obj))"
  by (induction obj) (auto simp: set_insert_index split: option.splits)

lemma obj_assign_keys:
  "fst ` set (obj_assign obj k v) =
     (if k \<in> fst ` set obj \<or> k = ''__proto__'' then fst ` set obj else insert k (fst ` set obj))"
proof (cases "k \<in> fst ` set obj")
  case True
  have "fst ` set (map (\<lambda>(a, w). if a = k then (a, v) else (a, w)) obj) = fst ` set obj"
    by (induction obj) auto
  with True show ?thesis by (simp add: obj_assign_def)
next
  case False
  then show ?thesis
    by (auto simp: obj_assign_def set_insert_index split: option.splits)
qed

text \<open>A key that is no array index goes to the end.\<close>

lemma obj_assign_append:
  "k \<notin> fst ` set obj \<Longrightarrow> k \<noteq> ''__proto__'' \<Longrightarrow> array_index k = None \<Longrightarrow>
   obj_assign obj k v = obj @ [(k, v)]"
  by (simp add: obj_assign_def)

lemma distinct_obj_assign:
  "distinct (map fst obj) \<Longrightarrow> distinct (map fst (obj_assign obj k v))"
proof (cases "k \<in> fst ` set obj")
  case True
  have m: "map fst (map (\<lambda>(a, w). if a = k then (a, v) else (a, w)) obj) = map fst obj"
    by (induction obj) auto
  assume d: "distinct (map fst obj)"
  have "obj_assign obj k v = map (\<lambda>(a, w). if a = k then (a, v) else (a, w)) obj"
    using True by (simp add: obj_assign_def)
  then show ?thesis by (simp only: m d)
next
  case False
  assume "distinct (map fst obj)"
  with False show ?thesis
    by (auto simp: obj_assign_def distinct_insert_index split: option.splits)
qed

lemma map_of_obj_assign:
  "map_of (obj_assign obj k v) k' =
     (if k' = k \<and> (k \<in> fst ` set obj \<or> k \<noteq> ''__proto__'') then Some v else map_of obj k')"
proof (cases "k \<in> fst ` set obj")
  case True
  have "map_of (map (\<lambda>(a, w). if a = k then (a, v) else (a, w)) obj) k' =
        (if k' = k then (if k \<in> fst ` set obj then Some v else None) else map_of obj k')"
    by (induction obj) force+
  with True show ?thesis by (simp add: obj_assign_def)
next
  case False
  then have "map_of obj k = None" by (simp add: map_of_eq_None_iff)
  with False show ?thesis
    by (auto simp: obj_assign_def map_add_def map_of_insert_index split: option.splits)
qed

lemma fold_rows_keys:
  "fst ` set (foldl (\<lambda>row (key, vals). obj_assign row key (g vals)) acc sd) =
     fst ` set acc \<union> (fst ` set sd - {''__proto__''})"
proof (induction sd arbitrary: acc)
  case Nil
  then show ?case by simp
next
  case (Cons p sd)
  obtain k v where p: "p = (k, v)" by (cases p)
  show ?case
    by (simp add: p Cons.IH obj_assign_keys) blast
qed

lemma fold_rows_distinct:
  "distinct (map fst acc) \<Longrightarrow>
   distinct (map fst (foldl (\<lambda>row (key, vals). obj_assign row key (g vals)) acc sd))"
proof (induction sd arbitrary: acc)
  case Nil
  then show ?case by simp
next
  case (Cons p sd)
  obtain k v where p: "p = (k, v)" by (cases p)
  from Cons.prems have "distinct (map fst (obj_assign acc k (g v)))"
    by (rule distinct_obj_assign)
  then show ?case using Cons.IH by (simp add: p)
qed

lemma make_row_keys:
  "fst ` set (make_row sd i) = fst ` set sd - {''__proto__''} \<and> distinct (map fst (make_row sd i))"
  using fold_rows_keys [where acc = "[]" and sd = sd and g = "cell i"]
    fold_rows_distinct [where acc = "[]" and sd = sd and g = "cell i"]
  by (simp add: make_row_def)

lemma fold_rows_lookup:
  "distinct (map fst sd) \<Longrightarrow> fst ` set acc \<inter> fst ` set sd = {} \<Longrightarrow>
   map_of (foldl (\<lambda>row (key, vals). obj_assign row key (g vals)) acc sd) k =
     (case map_of sd k of
        Some vals \<Rightarrow> if k = ''__proto__'' then None else Some (g vals)
      | None \<Rightarrow> map_of acc k)"
proof (induction sd arbitrary: acc)
  case Nil
  then show ?case by simp
next
  case (Cons p sd)
  obtain k0 v0 where p: "p = (k0, v0)" by (cases p)
  have d: "distinct (map fst sd)" "fst ` set (obj_assign acc k0 (g v0)) \<inter> fst ` set sd = {}"
    using Cons.prems by (auto simp: p obj_assign_keys)
  have k0: "k0 \<notin> fst ` set acc" "map_of sd k0 = None" "map_of acc k0 = None"
    using Cons.prems by (auto simp: p map_of_eq_None_iff)
  show ?case
    using Cons.IH [OF d] k0 by (auto simp: p map_of_obj_assign split: option.splits)
qed

lemma make_row_lookup:
  "distinct (map fst sd) \<Longrightarrow>
   map_of (make_row sd i) k =
     (if k = ''__proto__'' then None else map_option (cell i) (map_of sd k))"
  using fold_rows_lookup [where acc = "[]" and sd = sd and k = k and g = "cell i"]
  by (auto simp: make_row_def split: option.splits)

lemma Math_max_zeros: "\<forall>n\<in>set ns. n = 0 \<Longrightarrow> \<not> less_ext 0 (Math_max ns)"
  by (induction ns) (auto split: extnat.splits)

lemma tableData_no_rows:
  assumes "\<forall>(k, v) \<in> set ps. k \<noteq> ''_metadata'' \<longrightarrow> v = JArr []"
  shows "tableData (JObj ps) = []"
proof -
  let ?sd = "scrapedData_of (JObj ps)"
  let ?ns = "map (\<lambda>vals. case vals of JArr xs \<Rightarrow> length xs | _ \<Rightarrow> 1) (map snd ?sd)"
  have "\<forall>n\<in>set ?ns. n = 0"
    using assms by (auto simp: scrapedData_of_def)
  then have "\<not> less_ext 0 (Math_max ?ns)" by (rule Math_max_zeros)
  then have "rows_loop ?sd (Math_max ?ns) 0 [] = []" by (rule rows_loop_done)
  moreover have "tableData (JObj ps) = rows_loop ?sd (Math_max ?ns) 0 []"
    by (simp add: tableData_def Let_def del: One_nat_def)
  ultimately show ?thesis by simp
qed

lemma Math_max_Max: "ns \<noteq> [] \<Longrightarrow> Math_max ns = Finite (Max (set ns))"
proof (induction ns)
  case Nil
  then show ?case by simp
next
  case (Cons n ns)
  show ?case
  proof (cases "ns = []")
    case True
    then show ?thesis by simp
  next
    case False
    with Cons.IH have "Math_max ns = Finite (Max (set ns))" by simp
    with False show ?thesis by simp
  qed
qed

text \<open>The rows of a mapping: one per index below the width, each built by \<open>make_row\<close>.\<close>

lemma tableData_rows:
  "tableData (JObj ps) =
     map (make_row (scrapedData_of (JObj ps))) [0..<spec_width (scrapedData_of (JObj ps))]"
proof (cases "scrapedData_of (JObj ps) = []")
  case True
  then show ?thesis by (simp add: tableData_def spec_width_def rows_loop_done)
next
  case False
  then show ?thesis
    by (simp add: tableData_def spec_width_def Let_def Math_max_Max rows_loop_eq)
qed

lemma cell_array:
  "cell i (JArr xs) = (if i < length xs \<and> truthy (xs ! i) then xs ! i else JStr [])"
  by (simp add: cell_def js_or_def js_index_def)

lemma cell_scalar:
  "\<forall>xs. v \<noteq> JArr xs \<Longrightarrow> cell i v = (if i = 0 then v else JStr [])"
  by (cases v) (simp_all add: cell_def)

text \<open>
  Where the code agrees with the description of the cells: in a mapping with distinct
  keys, a field other than the metadata entry and \<^verbatim>\<open>__proto__\<close> contributes \<open>cell i\<close> of
  its value to row \<open>i\<close>, which is the element at \<open>i\<close> when that element is there and truthy.
\<close>

lemma tableData_cell:
  assumes "distinct (map fst ps)" and "(k, v) \<in> set ps"
    and "k \<noteq> ''_metadata''" and "k \<noteq> ''__proto__''"
    and "i < length (tableData (JObj ps))"
  shows "map_of (tableData (JObj ps) ! i) k = Some (cell i v)"
proof -
  let ?sd = "scrapedData_of (JObj ps)"
  have d: "distinct (map fst ?sd)"
    using assms(1) by (simp add: scrapedData_of_def distinct_map_filter)
  have "(k, v) \<in> set ?sd"
    using assms(2,3) by (simp add: scrapedData_of_def)
  with d have "map_of ?sd k = Some v" by simp
  moreover have "tableData (JObj ps) ! i = make_row ?sd i"
    using assms(5) by (simp add: tableData_rows)
  ultimately show ?thesis
    using assms(4) by (simp add: make_row_lookup [OF d])
qed

text \<open>
  Where the code agrees with the description of the field set: every row of a mapping
  has the keys of the mapping but for the metadata entry and \<^verbatim>\<open>__proto__\<close>, each of them
  once.
\<close>

lemma tableData_keys:
  assumes "row \<in> set (tableData (JObj ps))"
  shows "set (map fst row) = set (map fst ps) - {''_metadata'', ''__proto__''} \<and>
         distinct (map fst row)"
proof -
  let ?sd = "scrapedData_of (JObj ps)"
  have k: "fst ` set ?sd = fst ` set ps - {''_metadata''}"
    by (auto simp: scrapedData_of_def image_iff)
  obtain i where "row = make_row ?sd i"
    using assms by (auto simp: tableData_rows)
  then show ?thesis using make_row_keys [of ?sd i] k by auto
qed

text \<open>
  C1, at a sequence that holds the number 0: index 0 is present in \<^verbatim>\<open>[0, 5]\<close>, yet row 0
  carries the empty string, because \<^verbatim>\<open>values[i] || ''\<close> replaces every falsy element;
  row 1 carries its element 5.
\<close>

theorem tableData_falsy_element:
  "tableData (JObj [(''count'', JArr [JNum 0, JNum 5])]) =
     [[(''count'', JStr [])], [(''count'', JNum 5)]]"
  by (simp add: tableData_def scrapedData_of_def rows_loop_eq make_row_def cell_def
      obj_assign_def array_index_def is_digit_def js_or_def js_index_def upt_conv_Cons)

theorem tableData_falsy_element_witness:
  "map_of (tableData (JObj [(''count'', JArr [JNum 0, JNum 5])]) ! 0) ''count'' \<noteq> Some (JNum 0)"
  using tableData_falsy_element by simp

text \<open>
  C7: the empty mapping has no rows and is rendered as "No data available"; a mapping
  that has a field, and whose fields other than the metadata entry are all empty
  sequences, has no rows either and is rendered as "No data found with the specified
  selectors"; the two messages differ.
\<close>

theorem ResultsTable_empty_states:
  "tableData (JObj []) = [] \<and> ResultsTable (JObj []) = Message ''No data available'' \<and>
   (\<forall>ps. ps \<noteq> [] \<and> (\<forall>(k, v) \<in> set ps. k \<noteq> ''_metadata'' \<longrightarrow> v = JArr []) \<longrightarrow>
      tableData (JObj ps) = [] \<and>
      ResultsTable (JObj ps) = Message ''No data found with the specified selectors'') \<and>
   Message ''No data available'' \<noteq> Message ''No data found with the specified selectors''"
proof (intro conjI allI impI)
  show "tableData (JObj []) = []"
    using tableData_no_rows [of "[]"] by simp
  show "ResultsTable (JObj []) = Message ''No data available''"
    by (simp add: ResultsTable_def)
  show "Message ''No data available'' \<noteq> Message ''No data found with the specified selectors''"
    by simp
next
  fix ps :: "jsval props"
  assume a: "ps \<noteq> [] \<and> (\<forall>(k, v) \<in> set ps. k \<noteq> ''_metadata'' \<longrightarrow> v = JArr [])"
  then show "tableData (JObj ps) = []" using tableData_no_rows by blast
  with a show "ResultsTable (JObj ps) = Message ''No data found with the specified selectors''"
    by (simp add: ResultsTable_def)
qed

theorem ResultsTable_empty_states_witness:
  "tableData (JObj [(''a'', JArr [])]) = [] \<and>
   ResultsTable (JObj [(''a'', JArr [])]) = Message ''No data found with the specified selectors'' \<and>
   ResultsTable (JObj []) = Message ''No data available''"
proof -
  have "[(''a'', JArr [])] \<noteq> [] \<and>
        (\<forall>(k, v) \<in> set [(''a'', JArr [])]. k \<noteq> ''_metadata'' \<longrightarrow> v = JArr [])"
    by simp
  with ResultsTable_empty_states show ?thesis by blast
qed

text \<open>
  C8: the mapping \<^verbatim>\<open>{title: ["A","B"], note: "x"}\<close> gives the two rows
  \<^verbatim>\<open>{title:"A", note:"x"}\<close> and \<^verbatim>\<open>{title:"B", note:""}\<close>, in this order.
\<close>

theorem tableData_title_note:
  "tableData (JObj [(''title'', JArr [JStr ''A'', JStr ''B'']), (''note'', JStr ''x'')]) =
     [[(''title'', JStr ''A''), (''note'', JStr ''x'')],
      [(''title'', JStr ''B''), (''note'', JStr '''')]]"
  by (simp add: tableData_def scrapedData_of_def rows_loop_eq make_row_def cell_def
      obj_assign_def array_index_def is_digit_def js_or_def js_index_def upt_conv_Cons)

theorem tableData_title_note_witness:
  "length (tableData (JObj [(''title'', JArr [JStr ''A'', JStr ''B'']), (''note'', JStr ''x'')])) = 2 \<and>
   map_of (tableData (JObj [(''title'', JArr [JStr ''A'', JStr ''B'']), (''note'', JStr ''x'')]) ! 1)
     ''note'' = Some (JStr '''')"
  using tableData_title_note by simp

text \<open>
  C10, at a mapping with a field named \<^verbatim>\<open>__proto__\<close>: the table has one row, and the row
  has no field at all, because \<^verbatim>\<open>row['__proto__'] = ...\<close> creates no property.
\<close>

theorem tableData_proto_field:
  "tableData (JObj [(''__proto__'', JArr [JStr ''a''])]) = [[]]"
  by (simp add: tableData_def scrapedData_of_def rows_loop_eq make_row_def cell_def
      obj_assign_def array_index_def is_digit_def js_or_def js_index_def upt_conv_Cons)

theorem tableData_proto_field_witness:
  "map fst (hd (tableData (JObj [(''__proto__'', JArr [JStr ''a''])]))) \<noteq> [''__proto__'']"
  using tableData_proto_field by simp

section \<open>Properties of the polling timers\<close>

lemma find_Some_in: "find P xs = Some x \<Longrightarrow> P x \<and> x \<in> set xs"
  by (induction xs) (auto split: if_splits)

lemma find_None_handle: "find (\<lambda>t. handle t = h) ts = None \<longleftrightarrow> h \<notin> set (map handle ts)"
  by (induction ts) auto

subsection \<open>What each operation does to the timers\<close>

lemma clearInterval_simps [simp]:
  "timers (clearInterval p st) = filter (\<lambda>t. handle t \<noteq> p) (timers st)"
  "fetches (clearInterval p st) = fetches st"
  "clock (clearInterval p st) = clock st"
  "nextHandle (clearInterval p st) = nextHandle st"
  "scrapeJobs (clearInterval p st) = scrapeJobs st"
  "currentJob (clearInterval p st) = currentJob st"
  "toasts (clearInterval p st) = toasts st"
  by (simp_all add: clearInterval_def)

lemma pollJobStatus_simps [simp]:
  "timers (pollJobStatus j st) = timers st @
     [\<lparr>handle = nextHandle st, due = clock st + 2000, period = Some 2000, callback = PollTick j\<rparr>,
      \<lparr>handle = nextHandle st + 1, due = clock st + 300000, period = None,
        callback = ClearPoll (nextHandle st)\<rparr>]"
  "fetches (pollJobStatus j st) = fetches st"
  "clock (pollJobStatus j st) = clock st"
  "nextHandle (pollJobStatus j st) = nextHandle st + 2"
  "scrapeJobs (pollJobStatus j st) = scrapeJobs st"
  "currentJob (pollJobStatus j st) = currentJob st"
  "toasts (pollJobStatus j st) = toasts st"
  by (simp_all add: pollJobStatus_def setInterval_def setTimeout_def)

lemma tick_resume_simps [simp]:
  "fetches (tick_resume p j resp st) = fetches st"
  "clock (tick_resume p j resp st) = clock st"
  "nextHandle (tick_resume p j resp st) = nextHandle st"
  by (simp_all add: tick_resume_def Let_def split: response.splits)

lemma tick_resume_timers:
  "timers (tick_resume p j resp st) = timers st \<or>
   timers (tick_resume p j resp st) = filter (\<lambda>t. handle t \<noteq> p) (timers st)"
  by (simp add: tick_resume_def Let_def split: response.splits)

lemma handleScrape_simps [simp]:
  "fetches (handleScrape rq resp st) = fetches st"
  "clock (handleScrape rq resp st) = clock st"
  by (simp_all add: handleScrape_def Let_def split: response.splits)

lemma handleScrape_timers:
  "handleScrape rq (Resolved j) st = st' \<Longrightarrow>
     timers st' = timers (pollJobStatus (job_id j) st) \<and> nextHandle st' = nextHandle st + 2"
  "handleScrape rq (Rejected d) st = st' \<Longrightarrow> timers st' = timers st \<and> nextHandle st' = nextHandle st"
  by (auto simp: handleScrape_def Let_def)

lemma deleteJob_simps [simp]:
  "timers (deleteJob j c resp st) = timers st"
  "fetches (deleteJob j c resp st) = fetches st"
  "clock (deleteJob j c resp st) = clock st"
  "nextHandle (deleteJob j c resp st) = nextHandle st"
  by (simp_all add: deleteJob_def split: response.splits)

lemma elapse_simps [simp]:
  "timers (elapse t st) = timers st"
  "fetches (elapse t st) = fetches st"
  "nextHandle (elapse t st) = nextHandle st"
  by (simp_all add: elapse_def)

lemma viewJob_simps [simp]:
  "timers (viewJob j st) = timers st"
  "fetches (viewJob j st) = fetches st"
  "clock (viewJob j st) = clock st"
  "nextHandle (viewJob j st) = nextHandle st"
  by (simp_all add: viewJob_def)

lemma timers_ok_fire: "timers_ok st \<Longrightarrow> timers_ok (fire h st)"
  unfolding timers_ok_def fire_def
  by (auto simp: Let_def tick_issue_def list_ex_iff not_less max_def
      dest!: find_Some_in split: option.splits callback.splits)

lemma timers_ok_settle: "timers_ok st \<Longrightarrow> timers_ok (settle k resp st)"
proof -
  assume ok: "timers_ok st"
  show ?thesis
  proof (cases "k < length (fetches st) \<and> \<not> settled (fetches st ! k)")
    case False
    with ok show ?thesis by (auto simp: settle_def)
  next
    case True
    let ?f = "fetches st ! k"
    let ?st1 = "st\<lparr>fetches := (fetches st)[k := ?f\<lparr>settled := True\<rparr>]\<rparr>"
    have s: "settle k resp st = tick_resume (issued_by ?f) (for_job ?f) resp ?st1"
      using True by (simp add: settle_def Let_def)
    have f: "\<forall>f \<in> set (fetches ?st1). issued_by f < nextHandle st"
      using ok True by (auto simp: timers_ok_def dest!: set_update_subset_insert [THEN subsetD])
    have "set (timers (settle k resp st)) \<subseteq> set (timers st)"
      using tick_resume_timers [of "issued_by ?f" "for_job ?f" resp ?st1] by (auto simp: s)
    with ok f show ?thesis
      unfolding timers_ok_def s by (auto split: callback.splits)
  qed
qed

lemma timers_ok_handleScrape: "timers_ok st \<Longrightarrow> timers_ok (handleScrape rq resp st)"
proof (cases resp)
  case (Resolved j)
  assume "timers_ok st"
  then show ?thesis
    using handleScrape_timers(1) [OF refl, of rq j st]
    by (auto simp: timers_ok_def Resolved split: callback.splits)
next
  case (Rejected d)
  assume "timers_ok st"
  then show ?thesis
    using handleScrape_timers(2) [OF refl, of rq d st]
    by (auto simp: timers_ok_def Rejected split: callback.splits)
qed

lemma timers_ok_elapse: "timers_ok st \<Longrightarrow> timers_ok (elapse t st)"
  by (auto simp: timers_ok_def elapse_def list_ex_iff not_less split: callback.splits)

lemma timers_ok_step: "timers_ok st \<Longrightarrow> timers_ok (step st ev)"
  by (cases ev)
     (simp_all add: timers_ok_elapse timers_ok_fire timers_ok_settle timers_ok_handleScrape,
      auto simp: timers_ok_def split: callback.splits)

lemma timers_ok_run: "timers_ok st \<Longrightarrow> timers_ok (run st evs)"
  unfolding run_def by (induction evs arbitrary: st) (simp_all add: timers_ok_step)

lemma timers_ok_initial: "timers_ok initial_dashboard"
  by (simp add: timers_ok_def initial_dashboard_def)

lemma timers_ok_pollJobStatus: "timers_ok st \<Longrightarrow> timers_ok (pollJobStatus j st)"
  by (auto simp: timers_ok_def split: callback.splits)

text \<open>So the timers are in order in every state a mounted dashboard reaches.\<close>

lemma timers_ok_reachable: "timers_ok (run initial_dashboard evs)"
  by (simp add: timers_ok_initial timers_ok_run)

lemma ceiling_guard_fire:
  "timers_ok st \<Longrightarrow> ceiling_guard h D st \<Longrightarrow> ceiling_guard h D (fire h' st)"
  unfolding timers_ok_def ceiling_guard_def fire_def active_def
  by (auto simp: Let_def tick_issue_def list_ex_iff not_less max_def image_iff
      dest!: find_Some_in split: option.splits callback.splits)

lemma ceiling_guard_settle:
  assumes "ceiling_guard h D st"
  shows "ceiling_guard h D (settle k resp st)"
proof (cases "k < length (fetches st) \<and> \<not> settled (fetches st ! k)")
  case False
  with assms show ?thesis by (auto simp: settle_def)
next
  case True
  let ?f = "fetches st ! k"
  let ?st1 = "st\<lparr>fetches := (fetches st)[k := ?f\<lparr>settled := True\<rparr>]\<rparr>"
  have s: "settle k resp st = tick_resume (issued_by ?f) (for_job ?f) resp ?st1"
    using True by (simp add: settle_def Let_def)
  have fk: "?f \<in> set (fetches st)" using True by simp
  then have p: "issued_by ?f \<noteq> h + 1" using assms by (simp add: ceiling_guard_def)
  have f: "\<forall>f \<in> set (fetches ?st1). issued_by f \<noteq> h + 1 \<and> (issued_by f = h \<longrightarrow> issued_at f \<le> D)"
    using assms fk by (auto simp: ceiling_guard_def dest!: set_update_subset_insert [THEN subsetD])
  from tick_resume_timers [of "issued_by ?f" "for_job ?f" resp ?st1]
  show ?thesis
  proof
    assume "timers (tick_resume (issued_by ?f) (for_job ?f) resp ?st1) = timers ?st1"
    with assms f show ?thesis
      unfolding ceiling_guard_def active_def s by simp
  next
    assume "timers (tick_resume (issued_by ?f) (for_job ?f) resp ?st1) =
            filter (\<lambda>t. handle t \<noteq> issued_by ?f) (timers ?st1)"
    with assms f p show ?thesis
      unfolding ceiling_guard_def active_def s by (auto simp: image_iff)
  qed
qed

lemma ceiling_guard_handleScrape:
  assumes "timers_ok st" and "ceiling_guard h D st"
  shows "ceiling_guard h D (handleScrape rq resp st)"
proof (cases resp)
  case (Resolved j)
  show ?thesis
    using assms handleScrape_timers(1) [OF refl, of rq j st]
    unfolding ceiling_guard_def timers_ok_def active_def Resolved
    by (auto simp: image_iff)
next
  case (Rejected d)
  show ?thesis
    using assms handleScrape_timers(2) [OF refl, of rq d st]
    unfolding ceiling_guard_def active_def Rejected
    by auto
qed

lemma ceiling_guard_step:
  "timers_ok st \<Longrightarrow> ceiling_guard h D st \<Longrightarrow> ceiling_guard h D (step st ev)"
  by (cases ev)
     (simp_all add: ceiling_guard_fire ceiling_guard_settle ceiling_guard_handleScrape,
      auto simp: ceiling_guard_def active_def)

lemma ceiling_guard_run:
  "timers_ok st \<Longrightarrow> ceiling_guard h D st \<Longrightarrow> ceiling_guard h D (run st evs)"
  unfolding run_def
  by (induction evs arbitrary: st) (simp_all add: timers_ok_step ceiling_guard_step)

lemma timers_ok_handle:
  "timers_ok st \<Longrightarrow> t \<in> set (timers st) \<Longrightarrow> handle t < nextHandle st \<and> clock st \<le> due t"
  by (simp add: timers_ok_def)

lemma timers_ok_clear:
  "timers_ok st \<Longrightarrow> t \<in> set (timers st) \<Longrightarrow> callback t = ClearPoll p \<Longrightarrow> p < nextHandle st"
  by (auto simp: timers_ok_def split: callback.splits)

lemma timers_ok_fetch:
  "timers_ok st \<Longrightarrow> f \<in> set (fetches st) \<Longrightarrow> issued_by f < nextHandle st"
  by (simp add: timers_ok_def)

lemma ceiling_guard_pollJobStatus:
  assumes "timers_ok st"
  shows "ceiling_guard (nextHandle st) (clock st + 300000) (pollJobStatus j st)"
proof -
  have a: "\<forall>t \<in> set (timers st). handle t < nextHandle st \<and> callback t \<noteq> ClearPoll (nextHandle st + 1)"
    using assms timers_ok_handle timers_ok_clear by fastforce
  have b: "\<forall>f \<in> set (fetches st). issued_by f < nextHandle st"
    using assms timers_ok_fetch by blast
  show ?thesis
    unfolding ceiling_guard_def active_def using a b by auto
qed

lemma run_two_ticks:
  "run (pollJobStatus 7 initial_dashboard) [Fire 1, Settle 0 (Resolved pending_job), Fire 1] =
     \<lparr>scrapeJobs = [], currentJob = None, loading = False, toasts = [], clock = 4000,
      nextHandle = 3,
      timers = [\<lparr>handle = 1, due = 6000, period = Some 2000, callback = PollTick 7\<rparr>,
                \<lparr>handle = 2, due = 300000, period = None, callback = ClearPoll 1\<rparr>],
      fetches = [\<lparr>issued_at = 2000, issued_by = 1, for_job = 7, settled = True\<rparr>,
                 \<lparr>issued_at = 4000, issued_by = 1, for_job = 7, settled = False\<rparr>]\<rparr>"
  by (simp add: run_def initial_dashboard_def pollJobStatus_def setInterval_def setTimeout_def
      fire_def settle_def tick_issue_def tick_resume_def pending_job_def Let_def)

subsection \<open>A cleared interval stays cleared\<close>

lemma fire_nextHandle [simp]: "nextHandle (fire h st) = nextHandle st"
  by (simp add: fire_def Let_def tick_issue_def split: option.splits callback.splits)

lemma fire_handles: "set (map handle (timers (fire h st))) \<subseteq> set (map handle (timers st))"
  by (auto simp: fire_def Let_def tick_issue_def split: option.splits callback.splits)

lemma fire_fetches:
  "fetches (fire h st) = fetches st \<or>
   (active st h \<and> (\<exists>f. issued_by f = h \<and> fetches (fire h st) = fetches st @ [f]))"
  by (auto simp: fire_def Let_def tick_issue_def active_def dest!: find_Some_in
      split: option.splits callback.splits)

lemma fire_jobs:
  "scrapeJobs (fire h st) = scrapeJobs st \<and> currentJob (fire h st) = currentJob st \<and>
   toasts (fire h st) = toasts st"
  by (simp add: fire_def Let_def tick_issue_def split: option.splits callback.splits)

lemma settled_update_ticks:
  "k < length fs \<Longrightarrow>
   map issued_at (filter (\<lambda>f. issued_by f = h) (fs[k := (fs ! k)\<lparr>settled := True\<rparr>])) =
   map issued_at (filter (\<lambda>f. issued_by f = h) fs)"
proof (induction fs arbitrary: k)
  case Nil
  then show ?case by simp
next
  case (Cons f fs)
  then show ?case by (cases k) auto
qed

lemma settle_ticks: "ticks (settle k resp st) h = ticks st h"
  by (simp add: settle_def ticks_def Let_def settled_update_ticks)

lemma settle_handles:
  "set (map handle (timers (settle k resp st))) \<subseteq> set (map handle (timers st))"
proof (cases "k < length (fetches st) \<and> \<not> settled (fetches st ! k)")
  case False
  then show ?thesis by (auto simp: settle_def)
next
  case True
  let ?f = "fetches st ! k"
  let ?st1 = "st\<lparr>fetches := (fetches st)[k := ?f\<lparr>settled := True\<rparr>]\<rparr>"
  have s: "settle k resp st = tick_resume (issued_by ?f) (for_job ?f) resp ?st1"
    using True by (simp add: settle_def Let_def)
  show ?thesis
    using tick_resume_timers [of "issued_by ?f" "for_job ?f" resp ?st1] by (auto simp: s)
qed

lemma settle_nextHandle [simp]: "nextHandle (settle k resp st) = nextHandle st"
  by (simp add: settle_def Let_def)

lemma stopped_step:
  assumes "p < nextHandle st" and "\<not> active st p"
  shows "p < nextHandle (step st ev) \<and> \<not> active (step st ev) p \<and> ticks (step st ev) p = ticks st p"
proof (cases ev)
  case (Elapse t)
  then show ?thesis using assms by (simp add: active_def ticks_def)
next
  case (Fire h)
  have "ticks (fire h st) p = ticks st p"
    using fire_fetches [of h st] assms(2) by (auto simp: ticks_def)
  then show ?thesis
    using assms fire_handles [of h st] by (auto simp: Fire active_def)
next
  case (Settle k resp)
  then show ?thesis
    using assms settle_handles [of k resp st] by (auto simp: active_def settle_ticks)
next
  case (Scrape rq resp)
  show ?thesis
  proof (cases resp)
    case (Resolved j)
    then show ?thesis
      using assms handleScrape_timers(1) [OF refl, of rq j st]
      by (auto simp: Scrape active_def ticks_def)
  next
    case (Rejected d)
    then show ?thesis
      using assms handleScrape_timers(2) [OF refl, of rq d st]
      by (auto simp: Scrape active_def ticks_def)
  qed
next
  case (Delete j c resp)
  then show ?thesis using assms by (simp add: active_def ticks_def)
next
  case (View j)
  then show ?thesis using assms by (simp add: active_def ticks_def)
qed

lemma stopped_run:
  "p < nextHandle st \<Longrightarrow> \<not> active st p \<Longrightarrow>
   \<not> active (run st evs) p \<and> ticks (run st evs) p = ticks st p"
proof (induction evs arbitrary: st)
  case Nil
  then show ?case by (simp add: run_def)
next
  case (Cons ev evs)
  from stopped_step [OF Cons.prems, of ev] Cons.IH [of "step st ev"]
  show ?case by (simp add: run_def)
qed

text \<open>
  C9: when the timeout of a polling loop runs (timer \<open>h\<close>, whose callback clears the
  interval \<open>p\<close>, is due and none is due earlier), the job collection, the selected job
  and the toasts are left as they were, so every field of every job, the status
  included, is what the last answer made it; and the polling has stopped: whatever
  happens next, the interval \<open>p\<close> is never pending again and never ticks again.
\<close>

theorem timeout_leaves_jobs:
  assumes "timers_ok st"
    and "find (\<lambda>t. handle t = h) (timers st) = Some t"
    and "callback t = ClearPoll p"
    and "\<not> list_ex (\<lambda>t'. due t' < due t) (timers st)"
  shows "scrapeJobs (fire h st) = scrapeJobs st \<and> currentJob (fire h st) = currentJob st \<and>
         toasts (fire h st) = toasts st \<and>
         (\<forall>evs. \<not> active (run (fire h st) evs) p \<and>
                ticks (run (fire h st) evs) p = ticks st p)"
proof -
  have t: "t \<in> set (timers st)" "handle t = h"
    using find_Some_in [OF assms(2)] by simp_all
  have p: "p < nextHandle st" using timers_ok_clear [OF assms(1) t(1) assms(3)] .
  have f: "fetches (fire h st) = fetches st"
    using assms(2,3) by (simp add: fire_def Let_def)
  have a: "\<not> active (fire h st) p"
    using assms(2,3,4) by (auto simp: fire_def Let_def active_def split: option.splits)
  from f have k: "ticks (fire h st) p = ticks st p" for p by (simp add: ticks_def)
  show ?thesis
    using fire_jobs [of h st] stopped_run [of p "fire h st"] p a k by simp
qed

subsection \<open>Registration\<close>

lemma polling_length_filter:
  "length (filter (\<lambda>x. Q x \<and> P x) ts) \<le> length (filter P ts)"
  by (induction ts) auto

lemma polling_length_rearm:
  "filter (\<lambda>t. callback t = c) (map (\<lambda>t'. if handle t' = h then t'\<lparr>due := due t' + d\<rparr> else t') ts) =
   map (\<lambda>t'. if handle t' = h then t'\<lparr>due := due t' + d\<rparr> else t') (filter (\<lambda>t. callback t = c) ts)"
  by (induction ts) auto

lemma fire_polling: "length (polling (fire h st) j) \<le> length (polling st j)"
proof (cases "find (\<lambda>t. handle t = h) (timers st)")
  case None
  then show ?thesis by (simp add: fire_def)
next
  case (Some t)
  show ?thesis
  proof (cases "list_ex (\<lambda>t'. due t' < due t) (timers st)")
    case True
    with Some show ?thesis by (simp add: fire_def)
  next
    case False
    let ?C = "\<lambda>t. callback t = PollTick j"
    let ?ts = "case period t of
                 None \<Rightarrow> filter (\<lambda>t'. handle t' \<noteq> h) (timers st)
               | Some d \<Rightarrow> map (\<lambda>t'. if handle t' = h then t'\<lparr>due := due t' + d\<rparr> else t') (timers st)"
    have 1: "length (filter ?C ?ts) \<le> length (filter ?C (timers st))"
      by (cases "period t") (simp_all add: polling_length_filter polling_length_rearm)
    have 2: "timers (fire h st) = ?ts \<or> (\<exists>p. timers (fire h st) = filter (\<lambda>t. handle t \<noteq> p) ?ts)"
      using Some False by (cases "callback t") (auto simp: fire_def Let_def tick_issue_def)
    from 2 show ?thesis
    proof
      assume "timers (fire h st) = ?ts"
      with 1 show ?thesis by (simp add: polling_def)
    next
      assume "\<exists>p. timers (fire h st) = filter (\<lambda>t. handle t \<noteq> p) ?ts"
      then obtain p where "timers (fire h st) = filter (\<lambda>t. handle t \<noteq> p) ?ts" ..
      then have "length (polling (fire h st) j) \<le> length (filter ?C ?ts)"
        by (simp add: polling_def polling_length_filter)
      with 1 show ?thesis by (simp add: polling_def)
    qed
  qed
qed

lemma settle_polling: "length (polling (settle k resp st) j) \<le> length (polling st j)"
proof (cases "k < length (fetches st) \<and> \<not> settled (fetches st ! k)")
  case False
  then show ?thesis by (auto simp: settle_def)
next
  case True
  let ?f = "fetches st ! k"
  let ?st1 = "st\<lparr>fetches := (fetches st)[k := ?f\<lparr>settled := True\<rparr>]\<rparr>"
  have s: "settle k resp st = tick_resume (issued_by ?f) (for_job ?f) resp ?st1"
    using True by (simp add: settle_def Let_def)
  show ?thesis
    using tick_resume_timers [of "issued_by ?f" "for_job ?f" resp ?st1]
    by (auto simp: s polling_def polling_length_filter)
qed

lemma step_polling:
  "created_id ev = [] \<Longrightarrow> length (polling (step st ev) j) \<le> length (polling st j)"
proof (cases ev)
  case (Scrape rq resp)
  assume "created_id ev = []"
  with Scrape obtain d where "resp = Rejected d" by (cases resp) simp_all
  with Scrape show ?thesis
    using handleScrape_timers(2) [OF refl, of rq d st] by (simp add: polling_def)
qed (simp_all add: fire_polling settle_polling, simp_all add: polling_def)

lemma step_created:
  "created_id ev = [i] \<Longrightarrow>
   polling (step st ev) j = polling st j @ (if j = i then [nextHandle st] else [])"
proof (cases ev)
  case (Scrape rq resp)
  assume "created_id ev = [i]"
  with Scrape obtain jb where "resp = Resolved jb" "job_id jb = i" by (cases resp) simp_all
  with Scrape show ?thesis
    using handleScrape_timers(1) [OF refl, of rq jb st] by (simp add: polling_def)
qed simp_all

lemma created_id_cases: "created_id ev = [] \<or> (\<exists>i. created_id ev = [i])"
  by (cases ev rule: created_id.cases) simp_all

lemma one_loop_invariant:
  assumes "\<forall>j. length (polling st j) \<le> 1 \<and> (polling st j \<noteq> [] \<longrightarrow> j \<in> set ids)"
    and "distinct (ids @ created_ids evs)"
  shows "\<forall>j. length (polling (run st evs) j) \<le> 1 \<and>
             (polling (run st evs) j \<noteq> [] \<longrightarrow> j \<in> set (ids @ created_ids evs))"
  using assms
proof (induction evs arbitrary: st ids)
  case Nil
  then show ?case by (simp add: run_def created_ids_def)
next
  case (Cons ev evs)
  have c: "created_ids (ev # evs) = created_id ev @ created_ids evs"
    by (simp add: created_ids_def)
  have "\<forall>j. length (polling (step st ev) j) \<le> 1 \<and>
            (polling (step st ev) j \<noteq> [] \<longrightarrow> j \<in> set (ids @ created_id ev))"
  proof (rule disjE [OF created_id_cases [of ev]])
    assume e: "created_id ev = []"
    show ?thesis
    proof
      fix j
      have "length (polling (step st ev) j) \<le> length (polling st j)"
        using e by (rule step_polling)
      with Cons.prems(1) show "length (polling (step st ev) j) \<le> 1 \<and>
            (polling (step st ev) j \<noteq> [] \<longrightarrow> j \<in> set (ids @ created_id ev))"
        by (metis (no_types, opaque_lifting) e append_Nil2 le_trans le_zero_eq length_0_conv list.size(3))
    qed
  next
    assume "\<exists>i. created_id ev = [i]"
    then obtain i where e: "created_id ev = [i]" ..
    with Cons.prems(2) have "i \<notin> set ids" by (simp add: c)
    with Cons.prems(1) have "polling st i = []" by blast
    with Cons.prems(1) show ?thesis by (auto simp: step_created [OF e] e)
  qed
  moreover have "distinct ((ids @ created_id ev) @ created_ids evs)"
    using Cons.prems(2) by (simp add: c)
  ultimately have "\<forall>j. length (polling (run (step st ev) evs) j) \<le> 1 \<and>
             (polling (run (step st ev) evs) j \<noteq> [] \<longrightarrow> j \<in> set ((ids @ created_id ev) @ created_ids evs))"
    by (rule Cons.IH)
  then show ?case by (simp add: run_def c)
qed

lemma one_loop_per_created_job:
  "distinct (created_ids evs) \<Longrightarrow> length (polling (run initial_dashboard evs) j) \<le> 1"
  using one_loop_invariant [of initial_dashboard "[]" evs]
  by (simp add: polling_def initial_dashboard_def)

text \<open>
  C2, as amended: at most one polling loop per job id is pending at any time, as long
  as the submissions of the run were answered with jobs of pairwise different ids
  (\<open>handleScrape\<close> registers each job it gets once). Registration itself is not
  idempotent: \<open>pollJobStatus\<close> keeps no record of the ids it was given; each call starts
  exactly one new polling loop for its id and leaves all other loops as they are, so an
  id that is already being polled has one loop more afterwards.
\<close>

theorem one_loop_per_registration:
  "polling (pollJobStatus jobId st) jobId = polling st jobId @ [nextHandle st] \<and>
   (\<forall>j. j \<noteq> jobId \<longrightarrow> polling (pollJobStatus jobId st) j = polling st j) \<and>
   (\<forall>j. distinct (created_ids evs) \<longrightarrow> length (polling (run initial_dashboard evs) j) \<le> 1)"
  using one_loop_per_created_job [of evs] by (simp add: polling_def)

text \<open>
  The claim C2 as it was stated fails: when job 7 is registered a second time, the call
  changes the state, two intervals are polling the job, and at 2000 ms each of them
  sends a status request.
\<close>

theorem pollJobStatus_twice_two_loops:
  "polling (pollJobStatus 7 (pollJobStatus 7 initial_dashboard)) 7 = [1, 3] \<and>
   pollJobStatus 7 (pollJobStatus 7 initial_dashboard) \<noteq> pollJobStatus 7 initial_dashboard \<and>
   map (\<lambda>f. (issued_at f, issued_by f, for_job f))
     (fetches (run (pollJobStatus 7 (pollJobStatus 7 initial_dashboard)) [Fire 1, Fire 3])) =
     [(2000, 1, 7), (2000, 3, 7)]"
proof -
  have "nextHandle (pollJobStatus 7 (pollJobStatus 7 initial_dashboard)) \<noteq>
        nextHandle (pollJobStatus 7 initial_dashboard)"
    by simp
  then have "pollJobStatus 7 (pollJobStatus 7 initial_dashboard) \<noteq> pollJobStatus 7 initial_dashboard"
    by metis
  moreover have "polling (pollJobStatus 7 (pollJobStatus 7 initial_dashboard)) 7 = [1, 3]"
    by (simp add: polling_def initial_dashboard_def)
  moreover have "map (\<lambda>f. (issued_at f, issued_by f, for_job f))
     (fetches (run (pollJobStatus 7 (pollJobStatus 7 initial_dashboard)) [Fire 1, Fire 3])) =
     [(2000, 1, 7), (2000, 3, 7)]"
    by (simp add: run_def initial_dashboard_def pollJobStatus_def setInterval_def setTimeout_def
        fire_def tick_issue_def Let_def)
  ultimately show ?thesis by simp
qed

theorem one_loop_per_registration_witness:
  "polling (pollJobStatus 7 initial_dashboard) 7 = [1] \<and>
   polling (pollJobStatus 7 (pollJobStatus 7 initial_dashboard)) 7 = [1, 3] \<and>
   polling (pollJobStatus 7 (pollJobStatus 8 initial_dashboard)) 8 = [1] \<and>
   created_ids [Scrape \<lparr>req_url = ''https://example.com'', req_use_selenium = False,
                        req_selectors = [(''title'', ''h1'')]\<rparr> (Resolved pending_job), Fire 1] = [7] \<and>
   length (polling (run initial_dashboard
     [Scrape \<lparr>req_url = ''https://example.com'', req_use_selenium = False,
              req_selectors = [(''title'', ''h1'')]\<rparr> (Resolved pending_job), Fire 1]) 7) \<le> 1"
proof -
  let ?evs = "[Scrape \<lparr>req_url = ''https://example.com'', req_use_selenium = False,
                       req_selectors = [(''title'', ''h1'')]\<rparr> (Resolved pending_job), Fire 1]"
  have 0: "polling initial_dashboard 7 = []" "nextHandle initial_dashboard = 1"
    by (simp_all add: polling_def initial_dashboard_def)
  have 1: "polling (pollJobStatus 7 initial_dashboard) 7 = [1]"
    using one_loop_per_registration [of 7 initial_dashboard] 0 by simp
  have 2: "polling (pollJobStatus 7 (pollJobStatus 7 initial_dashboard)) 7 = [1, 3]"
    using one_loop_per_registration [of 7 "pollJobStatus 7 initial_dashboard"] 0 1 by simp
  have "polling (pollJobStatus 8 initial_dashboard) 8 = [1]"
    using one_loop_per_registration [of 8 initial_dashboard] 0
    by (simp add: polling_def initial_dashboard_def)
  moreover have "(8::nat) \<noteq> 7" by simp
  ultimately have 3: "polling (pollJobStatus 7 (pollJobStatus 8 initial_dashboard)) 8 = [1]"
    using one_loop_per_registration [of 7 "pollJobStatus 8 initial_dashboard"] by metis
  have 4: "created_ids ?evs = [7]"
    by (simp add: created_ids_def pending_job_def)
  then have "distinct (created_ids ?evs)" by simp
  with one_loop_per_registration [of _ _ ?evs]
  have 5: "length (polling (run initial_dashboard ?evs) 7) \<le> 1" by blast
  from 1 2 3 4 5 show ?thesis by simp
qed

subsection \<open>The timeout is reached\<close>

lemma handle_rearm:
  "handle \<circ> (\<lambda>t'. if handle t' = h then t'\<lparr>due := due t' + d\<rparr> else t') = handle"
  by (rule ext) simp

lemma timers_live_fire: "timers_live st \<Longrightarrow> timers_live (fire h st)"
  unfolding timers_live_def fire_def
  by (auto simp: Let_def tick_issue_def distinct_map_filter handle_rearm
      split: option.splits callback.splits)

lemma timers_live_settle: "timers_live st \<Longrightarrow> timers_live (settle k resp st)"
proof (cases "k < length (fetches st) \<and> \<not> settled (fetches st ! k)")
  case False
  assume "timers_live st"
  with False show ?thesis by (auto simp: settle_def)
next
  case True
  assume l: "timers_live st"
  let ?f = "fetches st ! k"
  let ?st1 = "st\<lparr>fetches := (fetches st)[k := ?f\<lparr>settled := True\<rparr>]\<rparr>"
  have s: "settle k resp st = tick_resume (issued_by ?f) (for_job ?f) resp ?st1"
    using True by (simp add: settle_def Let_def)
  show ?thesis
    using tick_resume_timers [of "issued_by ?f" "for_job ?f" resp ?st1] l
    by (auto simp: s timers_live_def distinct_map_filter)
qed

lemma timers_live_handleScrape:
  assumes "timers_ok st" and "timers_live st"
  shows "timers_live (handleScrape rq resp st)"
proof (cases resp)
  case (Resolved j)
  have "\<forall>t \<in> set (timers st). handle t < nextHandle st"
    using assms(1) timers_ok_handle by blast
  then show ?thesis
    using assms(2) handleScrape_timers(1) [OF refl, of rq j st]
    by (auto simp: timers_live_def Resolved)
next
  case (Rejected d)
  then show ?thesis
    using assms(2) handleScrape_timers(2) [OF refl, of rq d st]
    by (auto simp: timers_live_def)
qed

lemma timers_live_step: "timers_ok st \<Longrightarrow> timers_live st \<Longrightarrow> timers_live (step st ev)"
  by (cases ev)
     (simp_all add: timers_live_fire timers_live_settle timers_live_handleScrape,
      auto simp: timers_live_def)

lemma timers_live_run: "timers_ok st \<Longrightarrow> timers_live st \<Longrightarrow> timers_live (run st evs)"
  unfolding run_def
  by (induction evs arbitrary: st) (simp_all add: timers_ok_step timers_live_step)

lemma timers_live_pollJobStatus:
  assumes "timers_ok st" and "timers_live st"
  shows "timers_live (pollJobStatus j st)"
proof -
  have "\<forall>t \<in> set (timers st). handle t < nextHandle st"
    using assms(1) timers_ok_handle by blast
  then show ?thesis using assms(2) by (auto simp: timers_live_def)
qed

lemma timers_live_reachable: "timers_live (run initial_dashboard evs)"
  by (rule timers_live_run [OF timers_ok_initial]) (simp add: timers_live_def initial_dashboard_def)

lemma sum_filter_le:
  fixes f :: "'a \<Rightarrow> nat"
  shows "sum_list (map f (filter P xs)) \<le> sum_list (map f xs)"
  by (induction xs) auto

lemma sum_filter_less:
  fixes f :: "'a \<Rightarrow> nat"
  assumes "x \<in> set xs" and "\<not> P x" and "0 < f x"
  shows "sum_list (map f (filter P xs)) < sum_list (map f xs)"
  using assms
proof (induction xs)
  case Nil
  then show ?case by simp
next
  case (Cons y ys)
  show ?case
  proof (cases "x = y")
    case True
    with Cons.prems sum_filter_le [of f P ys] show ?thesis by simp
  next
    case False
    with Cons have "sum_list (map f (filter P ys)) < sum_list (map f ys)" by simp
    then show ?thesis by simp
  qed
qed

lemma sum_map_le:
  fixes f :: "'a \<Rightarrow> nat"
  shows "\<forall>x \<in> set xs. f (g x) \<le> f x \<Longrightarrow> sum_list (map f (map g xs)) \<le> sum_list (map f xs)"
proof (induction xs)
  case Nil
  then show ?case by simp
next
  case (Cons y ys)
  then have "f (g y) \<le> f y" "sum_list (map f (map g ys)) \<le> sum_list (map f ys)" by simp_all
  then show ?case by simp
qed

lemma sum_map_less:
  fixes f :: "'a \<Rightarrow> nat"
  assumes "\<forall>x \<in> set xs. f (g x) \<le> f x" and "x \<in> set xs" and "f (g x) < f x"
  shows "sum_list (map f (map g xs)) < sum_list (map f xs)"
  using assms
proof (induction xs)
  case Nil
  then show ?case by simp
next
  case (Cons y ys)
  have le: "sum_list (map f (map g ys)) \<le> sum_list (map f ys)"
    using Cons.prems(1) by (intro sum_map_le) simp
  show ?case
  proof (cases "x = y")
    case True
    with Cons.prems(3) le show ?thesis by simp
  next
    case False
    with Cons have "sum_list (map f (map g ys)) < sum_list (map f ys)" by simp
    moreover have "f (g y) \<le> f y" using Cons.prems(1) by simp
    ultimately show ?thesis by simp
  qed
qed

lemma earliest_timer: "ts \<noteq> [] \<Longrightarrow> \<exists>t \<in> set ts. \<forall>x \<in> set ts. due t \<le> due (x :: timer)"
proof (induction ts)
  case Nil
  then show ?case by simp
next
  case (Cons a ts)
  show ?case
  proof (cases "ts = []")
    case True
    then show ?thesis by simp
  next
    case False
    with Cons.IH obtain t where t: "t \<in> set ts" "\<forall>x \<in> set ts. due t \<le> due x" by blast
    show ?thesis
    proof (cases "due a \<le> due t")
      case True
      with t(2) have "\<forall>x \<in> set (a # ts). due a \<le> due x" by (auto intro: order_trans)
      then show ?thesis by (intro bexI [of _ a]) simp_all
    next
      case False
      with t(2) have "\<forall>x \<in> set (a # ts). due t \<le> due x" by auto
      with t(1) show ?thesis by (intro bexI [of _ t]) simp_all
    qed
  qed
qed

lemma firings_left_later: "firings_left D (t\<lparr>due := due t + d\<rparr>) \<le> firings_left D t"
proof (cases "period t")
  case None
  then show ?thesis by (simp add: firings_left_def)
next
  case (Some p)
  have "(D - (due t + d)) div p \<le> (D - due t) div p"
    by (rule div_le_mono) simp
  with Some show ?thesis by (simp add: firings_left_def)
qed

lemma firings_left_rearmed:
  assumes "due t \<le> D" and "period t = Some d" and "0 < d"
  shows "firings_left D (t\<lparr>due := due t + d\<rparr>) < firings_left D t"
proof (cases "due t + d \<le> D")
  case True
  then have "d \<le> D - due t" by simp
  with assms(3) have "(D - due t) div d = Suc ((D - due t - d) div d)"
    by (rule le_div_geq)
  then have "(D - due t) div d = Suc ((D - (due t + d)) div d)"
    by simp
  then show ?thesis using assms True by (simp add: firings_left_def)
next
  case False
  with assms show ?thesis by (simp add: firings_left_def)
qed

lemma find_distinct_handle:
  "distinct (map handle ts) \<Longrightarrow> t \<in> set ts \<Longrightarrow> find (\<lambda>x. handle x = handle t) ts = Some t"
  by (induction ts) (auto simp: image_iff)

text \<open>Running an earliest timer that is due by \<open>D\<close> uses up one of the firings left.\<close>

lemma fire_earliest_decreases:
  assumes "timers_live st" and "t \<in> set (timers st)"
    and "\<forall>x \<in> set (timers st). due t \<le> due x" and "due t \<le> D"
  shows "sum_list (map (firings_left D) (timers (fire (handle t) st))) <
         sum_list (map (firings_left D) (timers st))"
proof -
  let ?h = "handle t" and ?w = "firings_left D"
  have f: "find (\<lambda>x. handle x = ?h) (timers st) = Some t"
    using assms(1,2) by (simp add: timers_live_def find_distinct_handle)
  have e: "\<not> list_ex (\<lambda>x. due x < due t) (timers st)"
    using assms(3) by (auto simp: list_ex_iff not_less)
  let ?ts = "case period t of
               None \<Rightarrow> filter (\<lambda>x. handle x \<noteq> ?h) (timers st)
             | Some d \<Rightarrow> map (\<lambda>x. if handle x = ?h then x\<lparr>due := due x + d\<rparr> else x) (timers st)"
  have 1: "sum_list (map ?w ?ts) < sum_list (map ?w (timers st))"
  proof (cases "period t")
    case None
    then have "0 < ?w t" using assms(4) by (simp add: firings_left_def)
    with assms(2) None show ?thesis by (simp add: sum_filter_less [where x = t])
  next
    case (Some d)
    then have d: "0 < d" using assms(1,2) by (auto simp: timers_live_def)
    let ?g = "\<lambda>x. if handle x = ?h then x\<lparr>due := due x + d\<rparr> else x"
    have "\<forall>x \<in> set (timers st). ?w (?g x) \<le> ?w x"
      by (simp add: firings_left_later)
    moreover have "?w (?g t) < ?w t"
      using firings_left_rearmed [OF assms(4) Some d] by simp
    ultimately have "sum_list (map ?w (map ?g (timers st))) < sum_list (map ?w (timers st))"
      using assms(2) sum_map_less [of "timers st" ?w ?g t] by blast
    with Some show ?thesis by simp
  qed
  have 2: "timers (fire ?h st) = ?ts \<or> (\<exists>p. timers (fire ?h st) = filter (\<lambda>x. handle x \<noteq> p) ?ts)"
    using f e by (cases "callback t") (auto simp: fire_def Let_def tick_issue_def)
  from 2 show ?thesis
  proof
    assume "timers (fire ?h st) = ?ts"
    with 1 show ?thesis by simp
  next
    assume "\<exists>p. timers (fire ?h st) = filter (\<lambda>x. handle x \<noteq> p) ?ts"
    then obtain p where "timers (fire ?h st) = filter (\<lambda>x. handle x \<noteq> p) ?ts" ..
    then have "sum_list (map ?w (timers (fire ?h st))) \<le> sum_list (map ?w ?ts)"
      by (simp add: sum_filter_le)
    with 1 show ?thesis by simp
  qed
qed

text \<open>
  While an interval is pending its timeout can be reached by the timers alone: there is
  a sequence of timers running, each when it is due, after which the interval is no
  longer pending, and the clock has not passed the timeout's time.
\<close>

lemma timeout_reached:
  assumes "timers_ok st" and "timers_live st" and "ceiling_guard h D st" and "active st h"
  shows "\<exists>hs. \<not> active (run st (map Fire hs)) h \<and> clock (run st (map Fire hs)) \<le> D"
  using assms
proof (induction "sum_list (map (firings_left D) (timers st))" arbitrary: st rule: less_induct)
  case less
  note ok = less.prems(1) and live = less.prems(2) and g = less.prems(3) and a = less.prems(4)
  from g a have a1: "active st (h + 1)" by (simp add: ceiling_guard_def)
  then obtain T where T: "T \<in> set (timers st)" "handle T = h + 1"
    by (auto simp: active_def)
  with g have TD: "due T = D" "period T = None" "callback T = ClearPoll h"
    by (simp_all add: ceiling_guard_def)
  have fT: "find (\<lambda>x. handle x = h + 1) (timers st) = Some T"
    using find_distinct_handle [of "timers st" T] live T by (simp add: timers_live_def)
  have cD: "clock st \<le> D" using timers_ok_handle [OF ok T(1)] TD(1) by simp
  show ?case
  proof (cases "list_ex (\<lambda>x. due x < D) (timers st)")
    case False
    have "\<not> active (fire (h + 1) st) h \<and> clock (fire (h + 1) st) \<le> D"
      using fT TD False cD by (auto simp: fire_def Let_def active_def)
    then have "\<not> active (run st (map Fire [h + 1])) h \<and> clock (run st (map Fire [h + 1])) \<le> D"
      by (simp add: run_def)
    then show ?thesis by blast
  next
    case True
    have "timers st \<noteq> []" using T(1) by auto
    then obtain t where t: "t \<in> set (timers st)" "\<forall>x \<in> set (timers st). due t \<le> due x"
      using earliest_timer by blast
    from True obtain x where "x \<in> set (timers st)" "due x < D" by (auto simp: list_ex_iff)
    with t(2) have tD: "due t < D" by (auto intro: le_less_trans)
    let ?st = "fire (handle t) st"
    have dec: "sum_list (map (firings_left D) (timers ?st)) < sum_list (map (firings_left D) (timers st))"
      using fire_earliest_decreases [OF live t] tD by simp
    have ft: "find (\<lambda>x. handle x = handle t) (timers st) = Some t"
      using find_distinct_handle [of "timers st" t] live t(1) by (simp add: timers_live_def)
    have e: "\<not> list_ex (\<lambda>x. due x < due t) (timers st)"
      using t(2) by (auto simp: list_ex_iff not_less)
    have c: "clock ?st = max (clock st) (due t)"
      using ft e by (simp add: fire_def Let_def tick_issue_def split: callback.splits)
    have c': "clock ?st \<le> D" using c cD tD by simp
    show ?thesis
    proof (cases "active ?st h")
      case False
      then have "\<not> active (run st (map Fire [handle t])) h \<and> clock (run st (map Fire [handle t])) \<le> D"
        using c' by (simp add: run_def)
      then show ?thesis by blast
    next
      case True
      have "\<exists>hs. \<not> active (run ?st (map Fire hs)) h \<and> clock (run ?st (map Fire hs)) \<le> D"
        using dec timers_ok_fire [OF ok] timers_live_fire [OF live] ceiling_guard_fire [OF ok g] True
        by (rule less.hyps)
      then obtain hs where "\<not> active (run ?st (map Fire hs)) h \<and> clock (run ?st (map Fire hs)) \<le> D" ..
      then have "\<not> active (run st (map Fire (handle t # hs))) h \<and>
                 clock (run st (map Fire (handle t # hs))) \<le> D"
        by (simp add: run_def)
      then show ?thesis by blast
    qed
  qed
qed

subsection \<open>A job that stays pending\<close>

lemma run_append: "run st (evs @ evs') = run (run st evs) evs'"
  by (simp add: run_def)

lemma answered_rounds_Suc:
  "answered_rounds h k j (Suc n) = answered_rounds h k j n @ [Fire h, Settle (k + n) (Resolved j)]"
  by (simp add: answered_rounds_def)

lemma one_round:
  assumes "timers st =
             [\<lparr>handle = h, due = t0 + 2000 * (n + 1), period = Some 2000, callback = PollTick jobId\<rparr>,
              \<lparr>handle = h + 1, due = t0 + 300000, period = None, callback = ClearPoll h\<rparr>]"
    and "n < 150" and "clock st \<le> t0 + 2000 * (n + 1)"
    and "status j \<noteq> ''completed''" and "status j \<noteq> ''failed''"
  shows "timers (run st [Fire h, Settle (length (fetches st)) (Resolved j)]) =
             [\<lparr>handle = h, due = t0 + 2000 * (n + 2), period = Some 2000, callback = PollTick jobId\<rparr>,
              \<lparr>handle = h + 1, due = t0 + 300000, period = None, callback = ClearPoll h\<rparr>] \<and>
         clock (run st [Fire h, Settle (length (fetches st)) (Resolved j)]) = t0 + 2000 * (n + 1) \<and>
         fetches (run st [Fire h, Settle (length (fetches st)) (Resolved j)]) =
           fetches st @ [\<lparr>issued_at = t0 + 2000 * (n + 1), issued_by = h, for_job = jobId, settled = True\<rparr>]"
  using assms
  by (simp add: run_def fire_def settle_def tick_issue_def tick_resume_def Let_def max_def)

lemma answered_rounds_state:
  assumes "timers st = []" and "status j \<noteq> ''completed''" and "status j \<noteq> ''failed''"
    and "n \<le> 150"
  shows "timers (run (pollJobStatus jobId st) (answered_rounds (nextHandle st) (length (fetches st)) j n)) =
           [\<lparr>handle = nextHandle st, due = clock st + 2000 * (n + 1), period = Some 2000,
             callback = PollTick jobId\<rparr>,
            \<lparr>handle = nextHandle st + 1, due = clock st + 300000, period = None,
             callback = ClearPoll (nextHandle st)\<rparr>] \<and>
         clock (run (pollJobStatus jobId st) (answered_rounds (nextHandle st) (length (fetches st)) j n)) =
           clock st + 2000 * n \<and>
         fetches (run (pollJobStatus jobId st) (answered_rounds (nextHandle st) (length (fetches st)) j n)) =
           fetches st @ map (\<lambda>i. \<lparr>issued_at = clock st + 2000 * (i + 1), issued_by = nextHandle st,
                                    for_job = jobId, settled = True\<rparr>) [0..<n]"
  using assms(4)
proof (induction n)
  case 0
  show ?case using assms(1) by (simp add: answered_rounds_def run_def)
next
  case (Suc n)
  let ?h = "nextHandle st" and ?k = "length (fetches st)"
  let ?st = "run (pollJobStatus jobId st) (answered_rounds ?h ?k j n)"
  from Suc have ih:
    "timers ?st =
       [\<lparr>handle = ?h, due = clock st + 2000 * (n + 1), period = Some 2000, callback = PollTick jobId\<rparr>,
        \<lparr>handle = ?h + 1, due = clock st + 300000, period = None, callback = ClearPoll ?h\<rparr>]"
    "clock ?st = clock st + 2000 * n"
    "fetches ?st = fetches st @ map (\<lambda>i. \<lparr>issued_at = clock st + 2000 * (i + 1), issued_by = ?h,
                                    for_job = jobId, settled = True\<rparr>) [0..<n]"
    by simp_all
  have len: "length (fetches ?st) = ?k + n" by (simp add: ih(3))
  have "n < 150" using Suc.prems by simp
  moreover have "clock ?st \<le> clock st + 2000 * (n + 1)" by (simp add: ih(2))
  ultimately have r:
    "timers (run ?st [Fire ?h, Settle (?k + n) (Resolved j)]) =
       [\<lparr>handle = ?h, due = clock st + 2000 * (n + 2), period = Some 2000, callback = PollTick jobId\<rparr>,
        \<lparr>handle = ?h + 1, due = clock st + 300000, period = None, callback = ClearPoll ?h\<rparr>] \<and>
     clock (run ?st [Fire ?h, Settle (?k + n) (Resolved j)]) = clock st + 2000 * (n + 1) \<and>
     fetches (run ?st [Fire ?h, Settle (?k + n) (Resolved j)]) =
       fetches ?st @ [\<lparr>issued_at = clock st + 2000 * (n + 1), issued_by = ?h, for_job = jobId,
                       settled = True\<rparr>]"
    using one_round [OF ih(1) _ _ assms(2,3)] by (simp add: len)
  have "run (pollJobStatus jobId st) (answered_rounds ?h ?k j (Suc n)) =
        run ?st [Fire ?h, Settle (?k + n) (Resolved j)]"
    by (simp add: answered_rounds_Suc run_append)
  with r show ?case by (simp add: ih(3))
qed

text \<open>
  A job whose status is never terminal: the interval sends its requests at 2000, 4000,
  ..., 300000 ms after the registration, and then the timeout ends it.
\<close>

lemma pending_job_forced_out:
  assumes "timers st = []" and "status j \<noteq> ''completed''" and "status j \<noteq> ''failed''"
  shows "timers (run (pollJobStatus jobId st)
                  (answered_rounds (nextHandle st) (length (fetches st)) j 150 @
                   [Fire (nextHandle st + 1)])) = [] \<and>
         clock (run (pollJobStatus jobId st)
                  (answered_rounds (nextHandle st) (length (fetches st)) j 150 @
                   [Fire (nextHandle st + 1)])) = clock st + 300000 \<and>
         fetches (run (pollJobStatus jobId st)
                  (answered_rounds (nextHandle st) (length (fetches st)) j 150 @
                   [Fire (nextHandle st + 1)])) =
           fetches st @ map (\<lambda>i. \<lparr>issued_at = clock st + 2000 * (i + 1), issued_by = nextHandle st,
                                    for_job = jobId, settled = True\<rparr>) [0..<150]"
proof -
  let ?st = "run (pollJobStatus jobId st) (answered_rounds (nextHandle st) (length (fetches st)) j 150)"
  from answered_rounds_state [OF assms, of 150 jobId]
  have s: "timers ?st =
           [\<lparr>handle = nextHandle st, due = clock st + 302000, period = Some 2000,
             callback = PollTick jobId\<rparr>,
            \<lparr>handle = nextHandle st + 1, due = clock st + 300000, period = None,
             callback = ClearPoll (nextHandle st)\<rparr>]"
     "clock ?st = clock st + 300000"
     "fetches ?st = fetches st @ map (\<lambda>i. \<lparr>issued_at = clock st + 2000 * (i + 1), issued_by = nextHandle st,
                                    for_job = jobId, settled = True\<rparr>) [0..<150]"
    by simp_all
  let ?F = "\<lambda>i. \<lparr>issued_at = clock st + 2000 * (i + 1), issued_by = nextHandle st,
                    for_job = jobId, settled = True\<rparr>"
  have e: "run (pollJobStatus jobId st)
             (answered_rounds (nextHandle st) (length (fetches st)) j 150 @ [Fire (nextHandle st + 1)]) =
           fire (nextHandle st + 1) ?st"
    by (simp add: run_append) (simp add: run_def)
  have f: "timers (fire (nextHandle st + 1) ?st) = []"
     "clock (fire (nextHandle st + 1) ?st) = clock st + 300000"
     "fetches (fire (nextHandle st + 1) ?st) = fetches ?st"
    by (simp_all add: fire_def Let_def s(1,2))
  have "fetches (fire (nextHandle st + 1) ?st) = fetches st @ map ?F [0..<150]"
    by (simp only: f(3) s(3))
  with f(1,2) show ?thesis by (simp only: e simp_thms)
qed

lemma pending_job_ticks:
  assumes "timers_ok st" and "timers st = []"
    and "status j \<noteq> ''completed''" and "status j \<noteq> ''failed''"
  shows "ticks (run (pollJobStatus jobId st)
                  (answered_rounds (nextHandle st) (length (fetches st)) j 150 @
                   [Fire (nextHandle st + 1)])) (nextHandle st) =
           map (\<lambda>i. clock st + 2000 * (i + 1)) [0..<150]"
proof -
  let ?F = "\<lambda>i. \<lparr>issued_at = clock st + 2000 * (i + 1), issued_by = nextHandle st,
                    for_job = jobId, settled = True\<rparr>"
  have old: "filter (\<lambda>f. issued_by f = nextHandle st) (fetches st) = []"
    using timers_ok_fetch [OF assms(1)] by (fastforce simp: filter_empty_conv)
  have new: "filter (\<lambda>f. issued_by f = nextHandle st) (map ?F xs) = map ?F xs" for xs
    by (induction xs) simp_all
  have "map issued_at (map ?F xs) = map (\<lambda>i. clock st + 2000 * (i + 1)) xs" for xs
    by (induction xs) simp_all
  then show ?thesis
    unfolding ticks_def pending_job_forced_out [OF assms(2,3,4), THEN conjunct2, THEN conjunct2]
    by (simp only: filter_append old new append_Nil)
qed

lemma one_round_jobs:
  assumes "timers st =
             [\<lparr>handle = h, due = t0 + 2000 * (n + 1), period = Some 2000, callback = PollTick jobId\<rparr>,
              \<lparr>handle = h + 1, due = t0 + 300000, period = None, callback = ClearPoll h\<rparr>]"
    and "n < 150"
    and "status j \<noteq> ''completed''" and "status j \<noteq> ''failed''"
  shows "scrapeJobs (run st [Fire h, Settle (length (fetches st)) (Resolved j)]) =
           map (\<lambda>x. if job_id x = jobId then j else x) (scrapeJobs st) \<and>
         currentJob (run st [Fire h, Settle (length (fetches st)) (Resolved j)]) = currentJob st \<and>
         toasts (run st [Fire h, Settle (length (fetches st)) (Resolved j)]) = toasts st"
  using assms
  by (simp add: run_def fire_def settle_def tick_issue_def tick_resume_def Let_def max_def)

lemma answered_rounds_jobs:
  assumes "timers st = []" and "status j \<noteq> ''completed''" and "status j \<noteq> ''failed''"
    and "n \<le> 150"
  shows "scrapeJobs (run (pollJobStatus jobId st) (answered_rounds (nextHandle st) (length (fetches st)) j n)) =
           (if n = 0 then scrapeJobs st else map (\<lambda>x. if job_id x = jobId then j else x) (scrapeJobs st)) \<and>
         currentJob (run (pollJobStatus jobId st) (answered_rounds (nextHandle st) (length (fetches st)) j n)) =
           currentJob st \<and>
         toasts (run (pollJobStatus jobId st) (answered_rounds (nextHandle st) (length (fetches st)) j n)) =
           toasts st"
  using assms(4)
proof (induction n)
  case 0
  show ?case by (simp add: answered_rounds_def run_def)
next
  case (Suc n)
  let ?h = "nextHandle st" and ?k = "length (fetches st)"
  let ?st = "run (pollJobStatus jobId st) (answered_rounds ?h ?k j n)"
  let ?f = "\<lambda>x. if job_id x = jobId then j else x"
  from Suc have ih:
    "scrapeJobs ?st = (if n = 0 then scrapeJobs st else map ?f (scrapeJobs st))"
    "currentJob ?st = currentJob st" "toasts ?st = toasts st"
    by simp_all
  have n: "n \<le> 150" "n < 150" using Suc.prems by simp_all
  note shape = answered_rounds_state [OF assms(1,2,3) n(1), of jobId]
  have len: "length (fetches ?st) = ?k + n" using shape by simp
  have r: "scrapeJobs (run ?st [Fire ?h, Settle (?k + n) (Resolved j)]) = map ?f (scrapeJobs ?st) \<and>
           currentJob (run ?st [Fire ?h, Settle (?k + n) (Resolved j)]) = currentJob ?st \<and>
           toasts (run ?st [Fire ?h, Settle (?k + n) (Resolved j)]) = toasts ?st"
    using one_round_jobs [OF shape [THEN conjunct1] n(2) assms(2,3)] by (simp add: len)
  have e: "run (pollJobStatus jobId st) (answered_rounds ?h ?k j (Suc n)) =
        run ?st [Fire ?h, Settle (?k + n) (Resolved j)]"
    by (simp add: answered_rounds_Suc run_append)
  have idem: "map ?f (map ?f xs) = map ?f xs" for xs by simp
  show ?case
    unfolding e using r ih by (simp add: idem)
qed

theorem timeout_leaves_jobs_witness:
  "timers_ok (run (pollJobStatus 7 tracked_pending) (answered_rounds 1 0 pending_job 150)) \<and>
   find (\<lambda>t. handle t = 2) (timers (run (pollJobStatus 7 tracked_pending) (answered_rounds 1 0 pending_job 150))) =
     Some \<lparr>handle = 2, due = 300000, period = None, callback = ClearPoll 1\<rparr> \<and>
   active (run (pollJobStatus 7 tracked_pending) (answered_rounds 1 0 pending_job 150)) 1 \<and>
   scrapeJobs (fire 2 (run (pollJobStatus 7 tracked_pending) (answered_rounds 1 0 pending_job 150))) = [pending_job] \<and>
   currentJob (fire 2 (run (pollJobStatus 7 tracked_pending) (answered_rounds 1 0 pending_job 150))) = Some pending_job \<and>
   \<not> active (run (fire 2 (run (pollJobStatus 7 tracked_pending) (answered_rounds 1 0 pending_job 150))) [Fire 1]) 1"
proof -
  let ?S = "run (pollJobStatus 7 tracked_pending) (answered_rounds 1 0 pending_job 150)"
  let ?T = "\<lparr>handle = 2, due = 300000, period = None, callback = ClearPoll 1\<rparr>"
  have s0: "timers tracked_pending = []" "nextHandle tracked_pending = 1" "length (fetches tracked_pending) = 0" "clock tracked_pending = 0"
    "scrapeJobs tracked_pending = [pending_job]" "currentJob tracked_pending = Some pending_job"
    by (simp_all add: tracked_pending_def initial_dashboard_def)
  have p: "status pending_job \<noteq> ''completed''" "status pending_job \<noteq> ''failed''"
    "job_id pending_job = 7"
    by (simp_all add: pending_job_def)
  have ok: "timers_ok ?S"
    by (intro timers_ok_run timers_ok_pollJobStatus) (simp add: timers_ok_def tracked_pending_def initial_dashboard_def)
  have ts: "timers ?S = [\<lparr>handle = 1, due = 302000, period = Some 2000, callback = PollTick 7\<rparr>, ?T]"
    using answered_rounds_state [OF s0(1) p(1,2), of 150 7] by (simp add: s0)
  have js: "scrapeJobs ?S = [pending_job]" "currentJob ?S = Some pending_job"
    using answered_rounds_jobs [OF s0(1) p(1,2), of 150 7] by (simp_all add: s0 p(3))
  have f: "find (\<lambda>t. handle t = 2) (timers ?S) = Some ?T" unfolding ts by simp
  have e: "\<not> list_ex (\<lambda>t'. due t' < due ?T) (timers ?S)" unfolding ts by simp
  have a: "active ?S 1" unfolding active_def ts by simp
  from timeout_leaves_jobs [OF ok f _ e, of 1]
  have "scrapeJobs (fire 2 ?S) = scrapeJobs ?S \<and> currentJob (fire 2 ?S) = currentJob ?S \<and>
        \<not> active (run (fire 2 ?S) [Fire 1]) 1"
    by simp
  with ok f a js show ?thesis by simp
qed

text \<open>
  C4: a polling loop is bounded by 300000 ms from its registration, whatever its status
  requests return. \<open>pollJobStatus jobId\<close> starts the interval with the handle
  \<open>nextHandle st\<close>, which polls \<open>jobId\<close>, and the timeout with the next handle. Take any
  run \<open>evs\<close> of the event loop after it (any timers running, any answers to any requests,
  further submissions, deletions). Time is the clock of that event loop, where a timer
  runs when it is due. Then
  \<^item> each tick of the interval happens at most 300000 ms after the registration;
  \<^item> while the interval is still pending, the clock stands at most 300000 ms after the
    registration, and the timers alone lead out of this: some sequence of timers
    running ends with the interval cleared and the clock still within the 300000 ms;
  \<^item> when the timeout runs, with no timer due before it, the clock stands at exactly
    300000 ms after the registration and the interval is cleared for good: it is pending
    in no state of any run that follows;
  \<^item> a job whose status request is always answered, and never with a terminal status:
    registered with no other timer pending, its interval ticks 150 times, at 2000, 4000,
    ..., 300000 ms after the registration, then the timeout runs, and the interval is
    cleared with the clock at 300000 ms.

  The two hypotheses hold in every state a mounted dashboard reaches
  (\<open>timers_ok_reachable\<close>, \<open>timers_live_reachable\<close>).
\<close>

theorem polling_bounded:
  assumes "timers_ok st" and "timers_live st"
  shows "nextHandle st \<in> set (polling (pollJobStatus jobId st) jobId) \<and>
         (\<forall>t \<in> set (ticks (run (pollJobStatus jobId st) evs) (nextHandle st)).
            t \<le> clock st + 300000) \<and>
         (active (run (pollJobStatus jobId st) evs) (nextHandle st) \<longrightarrow>
            clock (run (pollJobStatus jobId st) evs) \<le> clock st + 300000 \<and>
            (\<exists>hs. \<not> active (run (run (pollJobStatus jobId st) evs) (map Fire hs)) (nextHandle st) \<and>
                  clock (run (run (pollJobStatus jobId st) evs) (map Fire hs)) \<le> clock st + 300000)) \<and>
         (active (run (pollJobStatus jobId st) evs) (nextHandle st + 1) \<and>
          \<not> list_ex (\<lambda>x. due x < clock st + 300000) (timers (run (pollJobStatus jobId st) evs)) \<longrightarrow>
            clock (fire (nextHandle st + 1) (run (pollJobStatus jobId st) evs)) = clock st + 300000 \<and>
            (\<forall>evs'. \<not> active (run (fire (nextHandle st + 1) (run (pollJobStatus jobId st) evs)) evs')
                       (nextHandle st))) \<and>
         (timers st = [] \<and> status j \<noteq> ''completed'' \<and> status j \<noteq> ''failed'' \<longrightarrow>
            \<not> active (run (pollJobStatus jobId st)
                         (answered_rounds (nextHandle st) (length (fetches st)) j 150 @
                          [Fire (nextHandle st + 1)])) (nextHandle st) \<and>
            clock (run (pollJobStatus jobId st)
                     (answered_rounds (nextHandle st) (length (fetches st)) j 150 @
                      [Fire (nextHandle st + 1)])) = clock st + 300000 \<and>
            ticks (run (pollJobStatus jobId st)
                     (answered_rounds (nextHandle st) (length (fetches st)) j 150 @
                      [Fire (nextHandle st + 1)])) (nextHandle st) =
              map (\<lambda>i. clock st + 2000 * (i + 1)) [0..<150])"
proof -
  let ?h = "nextHandle st" and ?D = "clock st + 300000"
  let ?st' = "run (pollJobStatus jobId st) evs"
  have ok: "timers_ok ?st'"
    using assms by (simp add: timers_ok_pollJobStatus timers_ok_run)
  have live: "timers_live ?st'"
    using assms by (simp add: timers_ok_pollJobStatus timers_live_pollJobStatus timers_live_run)
  have g: "ceiling_guard ?h ?D ?st'"
    using assms by (simp add: timers_ok_pollJobStatus ceiling_guard_pollJobStatus ceiling_guard_run)
  have 1: "?h \<in> set (polling (pollJobStatus jobId st) jobId)"
    by (simp add: polling_def)
  have 2: "\<forall>t \<in> set (ticks ?st' ?h). t \<le> ?D"
    using g by (auto simp: ceiling_guard_def ticks_def)
  have T: "due t = ?D \<and> period t = None \<and> callback t = ClearPoll ?h"
    if "t \<in> set (timers ?st')" "handle t = ?h + 1" for t
    using g that by (simp add: ceiling_guard_def)
  have 3: "clock ?st' \<le> ?D \<and>
           (\<exists>hs. \<not> active (run ?st' (map Fire hs)) ?h \<and> clock (run ?st' (map Fire hs)) \<le> ?D)"
    if a: "active ?st' ?h"
  proof -
    from g a have "active ?st' (?h + 1)" by (simp add: ceiling_guard_def)
    then obtain t where t: "t \<in> set (timers ?st')" "handle t = ?h + 1"
      by (auto simp: active_def)
    with T have "due t = ?D" by blast
    with timers_ok_handle [OF ok t(1)] have "clock ?st' \<le> ?D" by simp
    with timeout_reached [OF ok live g a] show ?thesis by blast
  qed
  have 4: "clock (fire (?h + 1) ?st') = ?D \<and> (\<forall>evs'. \<not> active (run (fire (?h + 1) ?st') evs') ?h)"
    if a: "active ?st' (?h + 1)" and e: "\<not> list_ex (\<lambda>x. due x < ?D) (timers ?st')"
  proof -
    from a obtain t where f: "find (\<lambda>x. handle x = ?h + 1) (timers ?st') = Some t"
      by (cases "find (\<lambda>x. handle x = ?h + 1) (timers ?st')")
         (auto simp: active_def find_None_handle)
    then have t: "t \<in> set (timers ?st')" "handle t = ?h + 1"
      using find_Some_in [OF f] by simp_all
    note Tt = T [OF t]
    have c: "clock ?st' \<le> ?D" using timers_ok_handle [OF ok t(1)] Tt by simp
    have "clock (fire (?h + 1) ?st') = ?D" "\<not> active (fire (?h + 1) ?st') ?h"
      using f Tt e c by (auto simp: fire_def Let_def active_def)
    moreover have "?h < nextHandle (fire (?h + 1) ?st')"
      using g by (simp add: ceiling_guard_def)
    ultimately show ?thesis using stopped_run [of ?h "fire (?h + 1) ?st'"] by blast
  qed
  have 5: "\<not> active (run (pollJobStatus jobId st)
                         (answered_rounds ?h (length (fetches st)) j 150 @ [Fire (?h + 1)])) ?h \<and>
           clock (run (pollJobStatus jobId st)
                     (answered_rounds ?h (length (fetches st)) j 150 @ [Fire (?h + 1)])) = ?D \<and>
           ticks (run (pollJobStatus jobId st)
                     (answered_rounds ?h (length (fetches st)) j 150 @ [Fire (?h + 1)])) ?h =
              map (\<lambda>i. clock st + 2000 * (i + 1)) [0..<150]"
    if "timers st = []" "status j \<noteq> ''completed''" "status j \<noteq> ''failed''"
    using pending_job_forced_out [OF that, of jobId] pending_job_ticks [OF assms(1) that, of jobId]
    by (simp add: active_def)
  from 1 2 3 4 5 show ?thesis by blast
qed

theorem polling_bounded_witness:
  "timers_ok initial_dashboard \<and> timers_live initial_dashboard \<and>
   active (run (pollJobStatus 7 initial_dashboard) [Fire 1, Settle 0 (Resolved pending_job), Fire 1]) 1 \<and>
   ticks (run (pollJobStatus 7 initial_dashboard) [Fire 1, Settle 0 (Resolved pending_job), Fire 1]) 1 =
     [2000, 4000] \<and>
   clock (run (pollJobStatus 7 initial_dashboard) [Fire 1, Settle 0 (Resolved pending_job), Fire 1])
     \<le> 300000 \<and>
   (\<exists>hs. \<not> active (run (run (pollJobStatus 7 initial_dashboard)
                           [Fire 1, Settle 0 (Resolved pending_job), Fire 1]) (map Fire hs)) 1 \<and>
         clock (run (run (pollJobStatus 7 initial_dashboard)
                           [Fire 1, Settle 0 (Resolved pending_job), Fire 1]) (map Fire hs)) \<le> 300000) \<and>
   active (run (pollJobStatus 7 initial_dashboard) (answered_rounds 1 0 pending_job 150)) 1 \<and>
   active (run (pollJobStatus 7 initial_dashboard) (answered_rounds 1 0 pending_job 150)) 2 \<and>
   clock (fire 2 (run (pollJobStatus 7 initial_dashboard) (answered_rounds 1 0 pending_job 150))) =
     300000 \<and>
   \<not> active (run (fire 2 (run (pollJobStatus 7 initial_dashboard) (answered_rounds 1 0 pending_job 150)))
                [Fire 1, Elapse 400000]) 1 \<and>
   \<not> active (run (pollJobStatus 7 initial_dashboard) (answered_rounds 1 0 pending_job 150 @ [Fire 2])) 1 \<and>
   clock (run (pollJobStatus 7 initial_dashboard) (answered_rounds 1 0 pending_job 150 @ [Fire 2])) =
     300000 \<and>
   ticks (run (pollJobStatus 7 initial_dashboard) (answered_rounds 1 0 pending_job 150 @ [Fire 2])) 1 =
     map (\<lambda>i. 2000 * (i + 1)) [0..<150]"
proof -
  let ?R = "run (pollJobStatus 7 initial_dashboard) [Fire 1, Settle 0 (Resolved pending_job), Fire 1]"
  let ?S = "run (pollJobStatus 7 initial_dashboard) (answered_rounds 1 0 pending_job 150)"
  let ?P = "run (pollJobStatus 7 initial_dashboard) (answered_rounds 1 0 pending_job 150 @ [Fire 2])"
  have n: "nextHandle initial_dashboard = 1" "clock initial_dashboard = 0"
    "length (fetches initial_dashboard) = 0"
    by (simp_all add: initial_dashboard_def)
  have i: "timers initial_dashboard = []" by (simp add: initial_dashboard_def)
  have p: "status pending_job \<noteq> ''completed''" "status pending_job \<noteq> ''failed''"
    by (simp_all add: pending_job_def)
  have live: "timers_live initial_dashboard"
    by (simp add: timers_live_def initial_dashboard_def)
  note pb = polling_bounded [OF timers_ok_initial live, unfolded n add.left_neutral one_add_one]
  have t: "ticks ?R 1 = [2000, 4000]"
    unfolding ticks_def run_two_ticks by simp
  have a: "active ?R 1"
    unfolding active_def run_two_ticks by simp
  from pb [of 7 "[Fire 1, Settle 0 (Resolved pending_job), Fire 1]"] a
  have r: "clock ?R \<le> 300000 \<and>
           (\<exists>hs. \<not> active (run ?R (map Fire hs)) 1 \<and> clock (run ?R (map Fire hs)) \<le> 300000)"
    by blast
  have ts: "timers ?S = [\<lparr>handle = 1, due = 302000, period = Some 2000, callback = PollTick 7\<rparr>,
                         \<lparr>handle = 2, due = 300000, period = None, callback = ClearPoll 1\<rparr>]"
    using answered_rounds_state [OF i p, of 150 7, unfolded n add.left_neutral one_add_one] by simp
  have s1: "active ?S 1" "active ?S 2" unfolding active_def ts by simp_all
  have s2: "\<not> list_ex (\<lambda>x. due x < 300000) (timers ?S)" unfolding ts by simp
  from pb [of 7 "answered_rounds 1 0 pending_job 150"] s1(2) s2
  have s: "clock (fire 2 ?S) = 300000 \<and> (\<forall>evs'. \<not> active (run (fire 2 ?S) evs') 1)"
    by blast
  from pb [of 7 _ pending_job] i p
  have d: "\<not> active ?P 1 \<and> clock ?P = 300000 \<and> ticks ?P 1 = map (\<lambda>i. 2000 * (i + 1)) [0..<150]"
    by blast
  from timers_ok_initial live a t r s1 s d show ?thesis by blast
qed

section \<open>Properties of a submission\<close>

lemma selectorsObj_fold_invalid:
  "\<forall>p \<in> set sels. field p = [] \<or> selector p = [] \<Longrightarrow>
   foldl (\<lambda>obj sel. if field sel \<noteq> [] \<and> selector sel \<noteq> []
                      then obj_assign obj (field sel) (selector sel) else obj) acc sels = acc"
  by (induction sels arbitrary: acc) auto

lemma selectorsObj_fold_keys:
  "fst ` set (foldl (\<lambda>obj sel. if field sel \<noteq> [] \<and> selector sel \<noteq> []
                      then obj_assign obj (field sel) (selector sel) else obj) acc sels) =
   fst ` set acc \<union>
   {field p | p. p \<in> set sels \<and> field p \<noteq> [] \<and> selector p \<noteq> [] \<and> field p \<noteq> ''__proto__''}"
proof (induction sels arbitrary: acc)
  case Nil
  then show ?case by simp
next
  case (Cons s sels)
  have k: "fst ` set (obj_assign acc k v) =
             (if k = ''__proto__'' then fst ` set acc else insert k (fst ` set acc))" for k v
    by (auto simp: obj_assign_keys)
  show ?case
  proof (cases "field s \<noteq> [] \<and> selector s \<noteq> []")
    case True
    then show ?thesis by (simp add: Cons.IH k) blast
  next
    case False
    then show ?thesis by (simp add: Cons.IH) blast
  qed
qed

text \<open>
  A submission with a URL and a pair that has a field and a selector passes the
  validation, unless \<^verbatim>\<open>__proto__\<close> is the only field name so given.
\<close>

lemma handleSubmit_accepts:
  assumes "url formData \<noteq> []"
    and "p \<in> set (selectors formData)" and "field p \<noteq> []" and "selector p \<noteq> []"
    and "field p \<noteq> ''__proto__''"
  shows "\<exists>scrapeData. handleSubmit formData = Inr scrapeData \<and> req_url scrapeData = url formData \<and>
           field p \<in> set (map fst (req_selectors scrapeData))"
proof -
  have "field p \<in> fst ` set (selectorsObj_of (selectors formData))"
    unfolding selectorsObj_of_def selectorsObj_fold_keys using assms by auto
  moreover from this have "selectorsObj_of (selectors formData) \<noteq> []" by auto
  moreover have "selectors formData \<noteq> []" using assms(2) by auto
  ultimately show ?thesis using assms(1) by (simp add: handleSubmit_def Let_def)
qed

lemma handleSubmit_proto_only:
  "handleSubmit \<lparr>url = ''https://example.com'', use_selenium = False,
                 selectors = [\<lparr>field = ''__proto__'', selector = ''h1''\<rparr>]\<rparr> = Inl NoValidSelectors"
  by (simp add: handleSubmit_def selectorsObj_of_def obj_assign_def array_index_def is_digit_def)

text \<open>
  C5: a submission that has a URL and at least one selector pair, while each of its
  pairs lacks the field or the selector, ends at the alert "Please add valid selectors"
  (\<open>NoValidSelectors\<close>); \<^verbatim>\<open>onSubmit\<close> is not called, so the dashboard, and with it the job
  collection, is unchanged.
\<close>

theorem submit_no_valid_selectors:
  assumes "url formData \<noteq> []" and "selectors formData \<noteq> []"
    and "\<forall>p \<in> set (selectors formData). field p = [] \<or> selector p = []"
  shows "handleSubmit formData = Inl NoValidSelectors \<and>
         submit formData remote st = (Some NoValidSelectors, st)"
proof -
  have "selectorsObj_of (selectors formData) = []"
    unfolding selectorsObj_of_def using assms(3) by (rule selectorsObj_fold_invalid)
  with assms(1,2) have "handleSubmit formData = Inl NoValidSelectors"
    by (simp add: handleSubmit_def)
  then show ?thesis by (simp add: submit_def)
qed

theorem submit_no_valid_selectors_witness:
  "handleSubmit \<lparr>url = ''https://example.com'', use_selenium = False,
                 selectors = [\<lparr>field = ''title'', selector = ''''\<rparr>, \<lparr>field = '''', selector = ''h1''\<rparr>]\<rparr>
     = Inl NoValidSelectors \<and>
   submit \<lparr>url = ''https://example.com'', use_selenium = False,
           selectors = [\<lparr>field = ''title'', selector = ''''\<rparr>, \<lparr>field = '''', selector = ''h1''\<rparr>]\<rparr>
          (\<lambda>r. Resolved pending_job) (pollJobStatus 3 initial_dashboard)
     = (Some NoValidSelectors, pollJobStatus 3 initial_dashboard)"
  using submit_no_valid_selectors
    [of "\<lparr>url = ''https://example.com'', use_selenium = False,
          selectors = [\<lparr>field = ''title'', selector = ''''\<rparr>, \<lparr>field = '''', selector = ''h1''\<rparr>]\<rparr>"
        "\<lambda>r. Resolved pending_job" "pollJobStatus 3 initial_dashboard"]
  by simp

lemma handleScrape_Resolved:
  "handleScrape scrapeData (Resolved j) st =
     (pollJobStatus (job_id j) (st\<lparr>scrapeJobs := j # scrapeJobs st, currentJob := Some j\<rparr>))
       \<lparr>toasts := toasts st @ [ToastSuccess ''Scraping job started!''], loading := False\<rparr>"
  by (simp add: handleScrape_def Let_def pollJobStatus_def setInterval_def setTimeout_def)

lemma handleScrape_Rejected:
  "scrapeJobs (handleScrape scrapeData (Rejected d) st) = scrapeJobs st \<and>
   currentJob (handleScrape scrapeData (Rejected d) st) = currentJob st \<and>
   timers (handleScrape scrapeData (Rejected d) st) = timers st"
  by (simp add: handleScrape_def Let_def)

text \<open>
  Where the code agrees with the description of a submission. Take a submission with a
  URL and a pair that has a selector and a field other than \<^verbatim>\<open>__proto__\<close>: its request is
  sent. When the request is answered with a job, that job is at position 0 of the
  collection, before the jobs that were there, it is the selected job, and a new polling
  loop for its id is pending; when the request is rejected, the collection is what it was.
\<close>

lemma submit_accepted:
  assumes "url formData \<noteq> []"
    and "p \<in> set (selectors formData)" and "field p \<noteq> []" and "selector p \<noteq> []"
    and "field p \<noteq> ''__proto__''"
  shows "\<exists>scrapeData. handleSubmit formData = Inr scrapeData \<and>
           (\<forall>j. remote scrapeData = Resolved j \<longrightarrow>
              fst (submit formData remote st) = None \<and>
              scrapeJobs (snd (submit formData remote st)) = j # scrapeJobs st \<and>
              currentJob (snd (submit formData remote st)) = Some j \<and>
              polling (snd (submit formData remote st)) (job_id j) =
                polling st (job_id j) @ [nextHandle st] \<and>
              active (snd (submit formData remote st)) (nextHandle st)) \<and>
           (\<forall>d. remote scrapeData = Rejected d \<longrightarrow>
              scrapeJobs (snd (submit formData remote st)) = scrapeJobs st \<and>
              currentJob (snd (submit formData remote st)) = currentJob st \<and>
              timers (snd (submit formData remote st)) = timers st)"
proof -
  from handleSubmit_accepts [OF assms]
  obtain scrapeData where h: "handleSubmit formData = Inr scrapeData" by blast
  have "fst (submit formData remote st) = None \<and>
        scrapeJobs (snd (submit formData remote st)) = j # scrapeJobs st \<and>
        currentJob (snd (submit formData remote st)) = Some j \<and>
        polling (snd (submit formData remote st)) (job_id j) =
          polling st (job_id j) @ [nextHandle st] \<and>
        active (snd (submit formData remote st)) (nextHandle st)"
    if "remote scrapeData = Resolved j" for j
    using that h by (simp add: submit_def handleScrape_Resolved polling_def active_def)
  moreover have "scrapeJobs (snd (submit formData remote st)) = scrapeJobs st \<and>
                 currentJob (snd (submit formData remote st)) = currentJob st \<and>
                 timers (snd (submit formData remote st)) = timers st"
    if "remote scrapeData = Rejected d" for d
    using that h by (simp add: submit_def handleScrape_Rejected)
  ultimately show ?thesis using h by blast
qed

text \<open>
  The request carries the selectors in the enumeration order of \<^verbatim>\<open>selectorsObj\<close>: a field
  named by an array index comes before the others.
\<close>

lemma handleSubmit_index_field_first:
  "handleSubmit \<lparr>url = ''https://example.com'', use_selenium = False,
                 selectors = [\<lparr>field = ''b'', selector = ''x''\<rparr>, \<lparr>field = ''1'', selector = ''y''\<rparr>]\<rparr> =
     Inr \<lparr>req_url = ''https://example.com'', req_use_selenium = False,
          req_selectors = [(''1'', ''y''), (''b'', ''x'')]\<rparr>"
  by (simp add: handleSubmit_def selectorsObj_of_def obj_assign_def array_index_def is_digit_def
      digits_value_def)

text \<open>
  C6, at a submission whose only pair has the field \<^verbatim>\<open>__proto__\<close> and the selector
  \<^verbatim>\<open>h1\<close>: it has a URL and a pair with both a field and a selector, and the service
  would answer with a job, yet \<^verbatim>\<open>selectorsObj['__proto__'] = 'h1'\<close> creates no property,
  so the submission ends at the alert "Please add valid selectors", no request is sent
  and the dashboard is what it was: no job is inserted, selected or polled.
\<close>

theorem submit_proto_field:
  "submit \<lparr>url = ''https://example.com'', use_selenium = False,
           selectors = [\<lparr>field = ''__proto__'', selector = ''h1''\<rparr>]\<rparr>
          (\<lambda>r. Resolved pending_job) initial_dashboard =
     (Some NoValidSelectors, initial_dashboard)"
  by (simp add: submit_def handleSubmit_def selectorsObj_of_def obj_assign_def array_index_def
      is_digit_def)

theorem submit_proto_field_witness:
  "scrapeJobs (snd (submit \<lparr>url = ''https://example.com'', use_selenium = False,
                            selectors = [\<lparr>field = ''__proto__'', selector = ''h1''\<rparr>]\<rparr>
                      (\<lambda>r. Resolved pending_job) initial_dashboard)) \<noteq> [pending_job] \<and>
   currentJob (snd (submit \<lparr>url = ''https://example.com'', use_selenium = False,
                            selectors = [\<lparr>field = ''__proto__'', selector = ''h1''\<rparr>]\<rparr>
                      (\<lambda>r. Resolved pending_job) initial_dashboard)) = None \<and>
   polling (snd (submit \<lparr>url = ''https://example.com'', use_selenium = False,
                         selectors = [\<lparr>field = ''__proto__'', selector = ''h1''\<rparr>]\<rparr>
                   (\<lambda>r. Resolved pending_job) initial_dashboard)) 7 = []"
  using submit_proto_field by (simp add: initial_dashboard_def polling_def)

section \<open>Properties of the export buttons\<close>

text \<open>A second click on the same button, with nothing in between, does nothing.\<close>

lemma click_twice: "click fmt (click fmt st) = click fmt st"
  by (auto simp: click_def handleExport_def export_filename_def exportOptions_def Let_def)

lemma click_while_exporting: "exporting st = Some fmt \<Longrightarrow> click fmt st = st"
  by (simp add: click_def)

text \<open>
  C3, at the clicks CSV, JSON, CSV with no answer in between: \<^verbatim>\<open>exporting\<close> holds one
  format only, so the click on JSON enables the CSV button again, and the second click
  on CSV sends a second CSV request while the first is outstanding. When both are
  answered, two downloads of \<^verbatim>\<open>scraped_data.csv\<close> have been started.
\<close>

theorem export_interleaved_formats:
  "map exp_format
     (outstanding (export_run (mount_ExportButtons 7) [Click ''csv'', Click ''json'', Click ''csv''])
        ''csv'') = [''csv'', ''csv''] \<and>
   map dl_filename
     (downloads (export_run (mount_ExportButtons 7)
        [Click ''csv'', Click ''json'', Click ''csv'',
         Answer 0 (Resolved ''a,b''), Answer 2 (Resolved ''a,b'')])) =
     [''scraped_data.csv'', ''scraped_data.csv'']"
  by (simp add: export_run_def mount_ExportButtons_def click_def handleExport_def export_resume_def
      export_filename_def exportOptions_def outstanding_def Let_def)

theorem export_interleaved_formats_witness:
  "length (outstanding (export_run (mount_ExportButtons 7) [Click ''csv'', Click ''json'', Click ''csv''])
        ''csv'') = 2"
  using export_interleaved_formats [THEN conjunct1, THEN arg_cong, of length] by simp

end
